theory Spec2Isabelle
  imports Main "HOL-Library.Word" "HOL-Library.Signed_Division" "HOL-Library.Monad_Syntax"
begin

section \<open>Segment trees: the four variants of the repository\<close>

text \<open>
  The repository holds one algorithm four times:
  \<^item> \<^verbatim>\<open>src/c/segtree.c\<close>: C, indices of type \<^verbatim>\<open>size_t\<close>, elements \<^verbatim>\<open>int\<close>, the operator is the
    global function \<^verbatim>\<open>glue\<close>;
  \<^item> \<^verbatim>\<open>src/cpp/generic_segtree.cpp\<close>: C++, indices \<^verbatim>\<open>size_t\<close>, elements of a template type,
    the operator is the member \<^verbatim>\<open>glue_func\<close> given to the constructor;
  \<^item> \<^verbatim>\<open>src/segtree.c\<close>: C, indices and elements \<^verbatim>\<open>int\<close>;
  \<^item> \<^verbatim>\<open>src/segtree.cpp\<close>: C++, indices and elements \<^verbatim>\<open>int\<close>.

  The first two are embedded once, over 64-bit unsigned words and an element type \<open>'a\<close>,
  with the operator as a parameter \<open>g\<close>. The last two are embedded once over 32-bit words read
  as two's complement, with signed comparison and signed division.

  An access \<^verbatim>\<open>A[i]\<close> outside the allocated array is undefined behaviour in C and C++. The
  embedding makes it a value, \<open>Inl OutOfBounds\<close>: a result \<open>Inr x\<close> says that every access on
  the way was inside the array. A call that never returns, because a recursion or a loop
  does not end or an exception leaves it, is the value \<open>None\<close>. \<^verbatim>\<open>malloc\<close> is taken to
  return a block of the byte count it is given, whatever the count.
\<close>

type_synonym size_t = "64 word"

text \<open>
  The C type \<^verbatim>\<open>int\<close>, 32 bits. Arithmetic wraps around; signed overflow, undefined in C, is
  taken as the two's complement wrap-around of the machine.
\<close>

type_synonym c_int = "32 word"

datatype fault = OutOfBounds

record ('i, 'a) SegTree =
  identity :: 'a
  n :: 'i
  N :: 'i
  A :: "'a list"

subsection \<open>Array accesses\<close>

definition read_A :: "'a list \<Rightarrow> size_t \<Rightarrow> fault + 'a" where
  "read_A xs i = (if unat i < length xs then Inr (xs ! unat i) else Inl OutOfBounds)"

definition write_A :: "'a list \<Rightarrow> size_t \<Rightarrow> 'a \<Rightarrow> fault + 'a list" where
  "write_A xs i x = (if unat i < length xs then Inr (xs[unat i := x]) else Inl OutOfBounds)"

definition read_A_int :: "'a list \<Rightarrow> c_int \<Rightarrow> fault + 'a" where
  "read_A_int xs i =
     (if 0 \<le> sint i \<and> nat (sint i) < length xs then Inr (xs ! nat (sint i))
      else Inl OutOfBounds)"

definition write_A_int :: "'a list \<Rightarrow> c_int \<Rightarrow> 'a \<Rightarrow> fault + 'a list" where
  "write_A_int xs i x =
     (if 0 \<le> sint i \<and> nat (sint i) < length xs then Inr (xs[nat (sint i) := x])
      else Inl OutOfBounds)"

subsection \<open>The \<^verbatim>\<open>size_t\<close> variants: \<^verbatim>\<open>src/c/segtree.c\<close> and \<^verbatim>\<open>src/cpp/generic_segtree.cpp\<close>\<close>

text \<open>
  \<^verbatim>\<open>for (p=1; p < n; p = p << 1);\<close> The shift drops the top bit. (The argument is \<open>sz\<close>
  here: \<open>n\<close> is the field of the struct.)
\<close>

partial_function (option) SuperCeiling_loop :: "size_t \<Rightarrow> size_t \<Rightarrow> size_t option" where
  "SuperCeiling_loop sz p = (if p < sz then SuperCeiling_loop sz (push_bit 1 p) else Some p)"

declare SuperCeiling_loop.simps [code]

definition SuperCeiling :: "size_t \<Rightarrow> size_t option" where
  "SuperCeiling sz = SuperCeiling_loop sz 1"

definition max_sz :: "size_t \<Rightarrow> size_t \<Rightarrow> size_t" where
  "max_sz a b = (if a > b then a else b)"

definition min_sz :: "size_t \<Rightarrow> size_t \<Rightarrow> size_t" where
  "min_sz a b = (if a < b then a else b)"

definition Parent :: "size_t \<Rightarrow> size_t" where
  "Parent i = i div 2"

definition LeftChild :: "size_t \<Rightarrow> size_t" where
  "LeftChild i = 2 * i"

definition RightChild :: "size_t \<Rightarrow> size_t" where
  "RightChild i = 2 * i + 1"

definition glue :: "c_int \<Rightarrow> c_int \<Rightarrow> c_int" where
  "glue a b = a + b"

text \<open>\<^verbatim>\<open>sizeof(int)\<close>, for the 32-bit \<^verbatim>\<open>int\<close>.\<close>

definition sizeof_int :: size_t where
  "sizeof_int = 4"

text \<open>
  \<^verbatim>\<open>SegTreeInit\<close> of \<^verbatim>\<open>src/c/segtree.c\<close> fills a struct the caller owns: it takes the struct
  as it is and writes all four fields. The byte count \<^verbatim>\<open>sizeof(int) * (2*s->N)\<close> given to
  \<^verbatim>\<open>malloc\<close> is computed in \<^verbatim>\<open>size_t\<close> and wraps; the block holds as many \<^verbatim>\<open>int\<close>s as that
  count has room for. The loop \<^verbatim>\<open>for (size_t i = 0; i < 2* s->N; i++) s->A[i] = 0;\<close> writes the
  slots \<open>0, \<dots>, 2 * N - 1\<close> in this order: where the block holds fewer, it writes outside
  the block, and the assignment of \<^verbatim>\<open>identity\<close> after it is not reached.
\<close>

definition SegTreeInit ::
  "(size_t, c_int) SegTree \<Rightarrow> size_t \<Rightarrow> (fault + (size_t, c_int) SegTree) option" where
  "SegTreeInit s sz =
     do { cap \<leftarrow> SuperCeiling sz;
          let count = 2 * cap;
              bytes = sizeof_int * count;
              slots = unat bytes div unat sizeof_int
          in if unat count \<le> slots
             then Some (Inr (s\<lparr>n := sz, N := cap, A := replicate (unat count) 0, identity := 0\<rparr>))
             else Some (Inl OutOfBounds) }"

text \<open>
  The constructor of \<^verbatim>\<open>src/cpp/generic_segtree.cpp\<close>. The member \<^verbatim>\<open>identity\<close> has the default
  initialiser \<^verbatim>\<open>0\<close>; the operator given to the constructor is the parameter \<open>g\<close> of \<open>Assign\<close>
  and \<open>RangeSum\<close> below. \<^verbatim>\<open>A.resize(2 * N, identity)\<close> throws \<^verbatim>\<open>length_error\<close> for a count above
  \<^verbatim>\<open>A.max_size()\<close>, and the constructor does not return then. That bound is set by the
  library and the element type, neither of which the repository fixes: it is the parameter
  \<open>max_size\<close>.
\<close>

definition Segtree :: "nat \<Rightarrow> size_t \<Rightarrow> (size_t, 'a::zero) SegTree option" where
  "Segtree max_size sz =
     do { cap \<leftarrow> SuperCeiling sz;
          if max_size < unat (2 * cap) then None
          else Some \<lparr>identity = 0, n = sz, N = cap, A = replicate (unat (2 * cap)) 0\<rparr> }"

text \<open>
  The loop of \<^verbatim>\<open>Assign\<close>:
  \<^verbatim>\<open>for (i = Parent(i); i>0; i = Parent(i)) A[i] = glue (A[LeftChild(i)], A[RightChild(i)]);\<close>
  entered at \<open>i\<close>.
\<close>

function Assign_loop :: "('a \<Rightarrow> 'a \<Rightarrow> 'a) \<Rightarrow> 'a list \<Rightarrow> size_t \<Rightarrow> fault + 'a list" where
  "Assign_loop g xs i =
     (if i > 0 then
        (case read_A xs (LeftChild i) of
           Inl e \<Rightarrow> Inl e
         | Inr a \<Rightarrow>
            (case read_A xs (RightChild i) of
               Inl e \<Rightarrow> Inl e
             | Inr b \<Rightarrow>
                (case write_A xs i (g a b) of
                   Inl e \<Rightarrow> Inl e
                 | Inr xs' \<Rightarrow> Assign_loop g xs' (Parent i))))
      else Inr xs)"
  by pat_completeness auto

termination
proof (relation "measure (\<lambda>(g, xs, i). unat i)")
  show "wf (measure (\<lambda>(g, xs, i). unat i))" by simp
next
  fix g :: "'a \<Rightarrow> 'a \<Rightarrow> 'a" and xs xs' :: "'a list" and i :: size_t
  assume "0 < i"
  then have "unat i \<noteq> 0" by (simp add: unat_gt_0 word_neq_0_conv)
  then have "unat i div 2 < unat i" by simp
  then show "((g, xs', Parent i), (g, xs, i)) \<in> measure (\<lambda>(g, xs, i). unat i)"
    by (simp add: Parent_def unat_div)
qed

definition Assign ::
  "('a \<Rightarrow> 'a \<Rightarrow> 'a) \<Rightarrow> (size_t, 'a) SegTree \<Rightarrow> size_t \<Rightarrow> 'a \<Rightarrow> fault + (size_t, 'a) SegTree" where
  "Assign g s i x =
     (let i' = i + N s in
      case write_A (A s) i' x of
        Inl e \<Rightarrow> Inl e
      | Inr xs \<Rightarrow>
         (case Assign_loop g xs (Parent i') of
            Inl e \<Rightarrow> Inl e
          | Inr xs' \<Rightarrow> Inr (s\<lparr>A := xs'\<rparr>)))"

text \<open>
  The recursive query. \<^verbatim>\<open>t1\<close> is computed before \<^verbatim>\<open>t2\<close>; a fault in either ends the call.
\<close>

partial_function (option) f ::
  "('a \<Rightarrow> 'a \<Rightarrow> 'a) \<Rightarrow> (size_t, 'a) SegTree \<Rightarrow> size_t \<Rightarrow> size_t \<Rightarrow> size_t \<Rightarrow> size_t \<Rightarrow> size_t
     \<Rightarrow> (fault + 'a) option" where
  "f g s v l r i j =
     (if l = i \<and> r = j then Some (read_A (A s) v)
      else
        let m = (l + r) div 2 in
        do { t1 \<leftarrow> (if i \<le> m then f g s (LeftChild v) l m i (min_sz m j)
                    else Some (Inr (identity s)));
             (case t1 of
                Inl e \<Rightarrow> Some (Inl e)
              | Inr a \<Rightarrow>
                 do { t2 \<leftarrow> (if j > m then f g s (RightChild v) (m + 1) r (max_sz i (m + 1)) j
                             else Some (Inr (identity s)));
                      (case t2 of
                         Inl e \<Rightarrow> Some (Inl e)
                       | Inr b \<Rightarrow> Some (Inr (g a b))) }) })"

declare f.simps [code]

definition RangeSum ::
  "('a \<Rightarrow> 'a \<Rightarrow> 'a) \<Rightarrow> (size_t, 'a) SegTree \<Rightarrow> size_t \<Rightarrow> size_t \<Rightarrow> (fault + 'a) option" where
  "RangeSum g s i j = f g s 1 0 (N s - 1) i j"

subsection \<open>The \<^verbatim>\<open>int\<close> variants: \<^verbatim>\<open>src/segtree.c\<close> and \<^verbatim>\<open>src/segtree.cpp\<close>\<close>

partial_function (option) SuperCeiling_int_loop :: "c_int \<Rightarrow> c_int \<Rightarrow> c_int option" where
  "SuperCeiling_int_loop sz p =
     (if word_sless p sz then SuperCeiling_int_loop sz (push_bit 1 p) else Some p)"

declare SuperCeiling_int_loop.simps [code]

definition SuperCeiling_int :: "c_int \<Rightarrow> c_int option" where
  "SuperCeiling_int sz = SuperCeiling_int_loop sz 1"

text \<open>Division of \<^verbatim>\<open>int\<close> in C truncates towards zero.\<close>

definition div_int :: "c_int \<Rightarrow> c_int \<Rightarrow> c_int" where
  "div_int a b = word_of_int (sint a sdiv sint b)"

definition max_int :: "c_int \<Rightarrow> c_int \<Rightarrow> c_int" where
  "max_int a b = (if word_sless b a then a else b)"

definition min_int :: "c_int \<Rightarrow> c_int \<Rightarrow> c_int" where
  "min_int a b = (if word_sless a b then a else b)"

definition Parent_int :: "c_int \<Rightarrow> c_int" where
  "Parent_int i = div_int i 2"

definition LeftChild_int :: "c_int \<Rightarrow> c_int" where
  "LeftChild_int i = 2 * i"

definition RightChild_int :: "c_int \<Rightarrow> c_int" where
  "RightChild_int i = 2 * i + 1"

text \<open>
  \<^verbatim>\<open>SegTreeInit\<close> of \<^verbatim>\<open>src/segtree.c\<close> writes \<^verbatim>\<open>n\<close>, \<^verbatim>\<open>N\<close> and \<^verbatim>\<open>A\<close>, and nothing else: the
  field \<^verbatim>\<open>identity\<close> keeps what the caller's struct held. A count \<^verbatim>\<open>2 * N\<close> that is not
  negative is at most \<open>2 ^ 30\<close>, and the byte count \<^verbatim>\<open>sizeof(int) * (2*s->N)\<close> does not wrap.
  The zeroing loop \<^verbatim>\<open>for (int i = 0; i < 2* s->N; i++)\<close> does not run for a negative
  \<^verbatim>\<open>2 * N\<close>: no slot is written, and the array of the model is empty.
\<close>

definition SegTreeInit_int :: "(c_int, c_int) SegTree \<Rightarrow> c_int \<Rightarrow> (c_int, c_int) SegTree option" where
  "SegTreeInit_int s sz =
     do { cap \<leftarrow> SuperCeiling_int sz;
          Some (s\<lparr>n := sz, N := cap, A := replicate (nat (sint (2 * cap))) 0\<rparr>) }"

text \<open>
  The constructor of \<^verbatim>\<open>src/segtree.cpp\<close>; the member \<^verbatim>\<open>identity\<close> is initialised to 0.
  \<^verbatim>\<open>A.resize(2 * N, identity)\<close> takes its count as a \<^verbatim>\<open>size_t\<close>: a negative \<^verbatim>\<open>2 * N\<close> is a count
  of at least \<open>2 ^ 64 - 2 ^ 31\<close>, beyond the maximal size of any vector, \<^verbatim>\<open>resize\<close> throws, and
  the constructor does not return. A count that is not negative is at most \<open>2 ^ 30\<close>, within
  the maximal size of a vector of \<^verbatim>\<open>int\<close> where \<^verbatim>\<open>size_t\<close> has 64 bits.
\<close>

definition Segtree_int :: "c_int \<Rightarrow> (c_int, c_int) SegTree option" where
  "Segtree_int sz =
     do { cap \<leftarrow> SuperCeiling_int sz;
          if sint (2 * cap) < 0 then None
          else Some \<lparr>identity = 0, n = sz, N = cap, A = replicate (nat (sint (2 * cap))) 0\<rparr> }"

text \<open>
  The loop of \<^verbatim>\<open>Assign\<close> over \<^verbatim>\<open>int\<close>. From a negative \<open>i\<close> it is not entered; from a positive
  one \<open>i / 2\<close> is smaller and not negative.
\<close>

function Assign_int_loop :: "c_int list \<Rightarrow> c_int \<Rightarrow> fault + c_int list" where
  "Assign_int_loop xs i =
     (if word_sless 0 i then
        (case read_A_int xs (LeftChild_int i) of
           Inl e \<Rightarrow> Inl e
         | Inr a \<Rightarrow>
            (case read_A_int xs (RightChild_int i) of
               Inl e \<Rightarrow> Inl e
             | Inr b \<Rightarrow>
                (case write_A_int xs i (glue a b) of
                   Inl e \<Rightarrow> Inl e
                 | Inr xs' \<Rightarrow> Assign_int_loop xs' (Parent_int i))))
      else Inr xs)"
  by pat_completeness auto

termination
proof (relation "measure (\<lambda>(xs, i). nat (sint i))")
  show "wf (measure (\<lambda>(xs, i). nat (sint i)))" by simp
next
  fix xs xs' :: "c_int list" and i :: c_int
  assume "word_sless 0 i"
  then have pos: "0 < sint i" by (simp add: word_sless_alt)
  have half: "sint i sdiv 2 = sint i div 2"
    using pos by (simp add: signed_divide_int_def sgn_if)
  have "sint i < 2 ^ 31" using sint_lt [of i] by simp
  then have "- (2 ^ 31) \<le> sint i div 2" and "sint i div 2 < 2 ^ 31" using pos by simp_all
  then have "sint (word_of_int (sint i div 2) :: c_int) = sint i div 2"
    by (simp add: signed_of_int signed_take_bit_int_eq_self)
  with pos half show "((xs', Parent_int i), (xs, i)) \<in> measure (\<lambda>(xs, i). nat (sint i))"
    by (simp add: Parent_int_def div_int_def)
qed

definition Assign_int ::
  "(c_int, c_int) SegTree \<Rightarrow> c_int \<Rightarrow> c_int \<Rightarrow> fault + (c_int, c_int) SegTree" where
  "Assign_int s i x =
     (let i' = i + N s in
      case write_A_int (A s) i' x of
        Inl e \<Rightarrow> Inl e
      | Inr xs \<Rightarrow>
         (case Assign_int_loop xs (Parent_int i') of
            Inl e \<Rightarrow> Inl e
          | Inr xs' \<Rightarrow> Inr (s\<lparr>A := xs'\<rparr>)))"

partial_function (option) f_int ::
  "(c_int, c_int) SegTree \<Rightarrow> c_int \<Rightarrow> c_int \<Rightarrow> c_int \<Rightarrow> c_int \<Rightarrow> c_int \<Rightarrow> (fault + c_int) option" where
  "f_int s v l r i j =
     (if l = i \<and> r = j then Some (read_A_int (A s) v)
      else
        let m = div_int (l + r) 2 in
        do { t1 \<leftarrow> (if word_sle i m then f_int s (LeftChild_int v) l m i (min_int m j)
                    else Some (Inr (identity s)));
             (case t1 of
                Inl e \<Rightarrow> Some (Inl e)
              | Inr a \<Rightarrow>
                 do { t2 \<leftarrow> (if word_sless m j
                             then f_int s (RightChild_int v) (m + 1) r (max_int i (m + 1)) j
                             else Some (Inr (identity s)));
                      (case t2 of
                         Inl e \<Rightarrow> Some (Inl e)
                       | Inr b \<Rightarrow> Some (Inr (glue a b))) }) })"

declare f_int.simps [code]

definition RangeSum_int :: "(c_int, c_int) SegTree \<Rightarrow> c_int \<Rightarrow> c_int \<Rightarrow> (fault + c_int) option" where
  "RangeSum_int s i j = f_int s 1 0 (N s - 1) i j"

section \<open>Notions of the specification\<close>

text \<open>A power of two that a \<^verbatim>\<open>size_t\<close> holds.\<close>

definition is_pow2 :: "size_t \<Rightarrow> bool" where
  "is_pow2 p \<longleftrightarrow> (\<exists>k \<in> {..<64}. p = 2 ^ k)"

text \<open>A power of two that an \<^verbatim>\<open>int\<close> holds.\<close>

definition is_pow2_int :: "c_int \<Rightarrow> bool" where
  "is_pow2_int p \<longleftrightarrow> (\<exists>k \<in> {..<31}. p = 2 ^ k)"

text \<open>
  The fold of the specification, \<open>combine(A[i], combine(A[i+1], ... combine(A[j-1], A[j])))\<close>,
  nested to the right. The second argument is the value of the empty fold.
\<close>

fun fold_combine :: "('a \<Rightarrow> 'a \<Rightarrow> 'a) \<Rightarrow> 'a \<Rightarrow> 'a list \<Rightarrow> 'a" where
  "fold_combine g e [] = e"
| "fold_combine g e [x] = x"
| "fold_combine g e (x # y # ys) = g x (fold_combine g e (y # ys))"

text \<open>The logical positions \<open>i, i + 1, \<dots>, j\<close>.\<close>

definition positions :: "size_t \<Rightarrow> size_t \<Rightarrow> size_t list" where
  "positions i j = map of_nat [unat i ..< unat j + 1]"

text \<open>
  A sequence of \<^verbatim>\<open>Assign\<close> calls, in the order of the list; it stops at the first call that
  leaves the array.
\<close>

fun Assign_all ::
  "('a \<Rightarrow> 'a \<Rightarrow> 'a) \<Rightarrow> (size_t, 'a) SegTree \<Rightarrow> (size_t \<times> 'a) list \<Rightarrow> fault + (size_t, 'a) SegTree" where
  "Assign_all g s [] = Inr s"
| "Assign_all g s ((i, x) # ops) =
     (case Assign g s i x of Inl e \<Rightarrow> Inl e | Inr s' \<Rightarrow> Assign_all g s' ops)"

text \<open>
  The current value at a logical position: the last value assigned to it, or the identity if
  it was never assigned.
\<close>

definition last_assigned :: "'a \<Rightarrow> (size_t \<times> 'a) list \<Rightarrow> size_t \<Rightarrow> 'a" where
  "last_assigned e ops k =
     (let hits = filter (\<lambda>op. fst op = k) ops in if hits = [] then e else snd (last hits))"

text \<open>
  The data model of the specification: the capacity is a power of two, not below the logical
  size, and the array has twice the capacity; twice the capacity fits a \<^verbatim>\<open>size_t\<close>.
\<close>

definition shape :: "(size_t, 'a) SegTree \<Rightarrow> bool" where
  "shape s \<longleftrightarrow> is_pow2 (N s) \<and> N s \<le> 2 ^ 62 \<and> n s \<le> N s \<and> length (A s) = 2 * unat (N s)"

text \<open>
  The same for the \<^verbatim>\<open>int\<close> variants: the capacity is a power of two and twice the capacity
  fits an \<^verbatim>\<open>int\<close> with room for the sum \<^verbatim>\<open>l+r\<close>.
\<close>

definition shape_int :: "(c_int, 'a) SegTree \<Rightarrow> bool" where
  "shape_int t \<longleftrightarrow>
     is_pow2_int (N t) \<and> word_sle (N t) (2 ^ 29) \<and> length (A t) = 2 * nat (sint (N t))"

text \<open>For every internal index \<open>i\<close> in \<open>[1, N)\<close>: \<open>storage[i] = combine(storage[2i], storage[2i+1])\<close>.\<close>

definition internal_ok :: "('a \<Rightarrow> 'a \<Rightarrow> 'a) \<Rightarrow> (size_t, 'a) SegTree \<Rightarrow> bool" where
  "internal_ok g s \<longleftrightarrow>
     (\<forall>i \<in> {1 ..< unat (N s)}. A s ! i = g (A s ! (2 * i)) (A s ! (2 * i + 1)))"

text \<open>For every padding leaf index \<open>i\<close> in \<open>[N+n, 2N)\<close>: \<open>storage[i] = identity\<close>.\<close>

definition padding_ok :: "(size_t, 'a) SegTree \<Rightarrow> bool" where
  "padding_ok s \<longleftrightarrow>
     (\<forall>i \<in> {unat (N s) + unat (n s) ..< 2 * unat (N s)}. A s ! i = identity s)"

text \<open>
  The states of \<^verbatim>\<open>main\<close> in \<^verbatim>\<open>src/c/segtree.c\<close>: after \<^verbatim>\<open>SegTreeInit(&s, 7)\<close>, and after
  \<^verbatim>\<open>Assign(&s, 3, 7)\<close> and \<^verbatim>\<open>Assign(&s, 4, 1)\<close>.
\<close>

definition main_init :: "(size_t, c_int) SegTree" where
  "main_init = \<lparr>identity = 0, n = 7, N = 8, A = replicate 16 0\<rparr>"

definition main_tree :: "(size_t, c_int) SegTree" where
  "main_tree = \<lparr>identity = 0, n = 7, N = 8, A = [0, 8, 7, 1, 0, 7, 1, 0, 0, 0, 0, 7, 1, 0, 0, 0]\<rparr>"

text \<open>
  The state of \<^verbatim>\<open>main\<close> in \<^verbatim>\<open>src/segtree.cpp\<close> after the constructor and the two calls of
  \<^verbatim>\<open>Assign\<close>.
\<close>

definition main_tree_int :: "(c_int, c_int) SegTree" where
  "main_tree_int =
     \<lparr>identity = 0, n = 7, N = 8, A = [0, 8, 7, 1, 0, 7, 1, 0, 0, 0, 0, 7, 1, 0, 0, 0]\<rparr>"

section \<open>Notions of the proofs\<close>

text \<open>The values \<open>p\<close> takes in the loop of \<open>SuperCeiling\<close>, once the shift has overflowed.\<close>

definition pow2_or_zero :: "size_t \<Rightarrow> bool" where
  "pow2_or_zero p \<longleftrightarrow> p = 0 \<or> (\<exists>k \<le> 63. p = 2 ^ k)"

text \<open>
  The same for \<^verbatim>\<open>int\<close>: the powers of two up to \<open>2 ^ 30\<close>, then \<open>2 ^ 31\<close>, which reads as the
  least \<^verbatim>\<open>int\<close>, then 0.
\<close>

definition pow2_or_zero_int :: "c_int \<Rightarrow> bool" where
  "pow2_or_zero_int p \<longleftrightarrow> p = 0 \<or> (\<exists>k \<le> 31. p = 2 ^ k)"

text \<open>The leaves \<open>a, \<dots>, b - 1\<close> of an array with capacity \<open>c\<close>.\<close>

definition leaves :: "'a list \<Rightarrow> nat \<Rightarrow> nat \<Rightarrow> nat \<Rightarrow> 'a list" where
  "leaves xs c a b = map (\<lambda>k. xs ! (c + k)) [a..<b]"

text \<open>The nodes \<open>i, i div 2, i div 4, \<dots>\<close> down to 1: what the loop of \<open>Assign\<close> still visits.\<close>

definition on_path :: "nat \<Rightarrow> nat \<Rightarrow> bool" where
  "on_path k i \<longleftrightarrow> 1 \<le> k \<and> (\<exists>t. k = i div 2 ^ t)"

section \<open>Capacity rounding\<close>

lemma unat_pow2: "k < 64 \<Longrightarrow> unat ((2::size_t) ^ k) = 2 ^ k"
proof -
  assume k: "k < 64"
  have "(2::nat) ^ k < 2 ^ 64" using k by (intro power_strict_increasing) auto
  moreover have "(2::size_t) ^ k = of_nat (2 ^ k)" by simp
  ultimately show ?thesis by (simp only: unat_of_nat) simp
qed

lemma push_bit_1_pow: "push_bit 1 ((2::size_t) ^ k) = 2 ^ Suc k"
  by (simp add: push_bit_eq_mult)

text \<open>
  From a power of two \<open>2 ^ k\<close> with everything below it smaller than \<open>sz\<close>, the loop stops at
  the least power of two that is not below \<open>sz\<close>, provided one fits in 64 bits.
\<close>

lemma SuperCeiling_loop_pow:
  assumes "unat sz \<le> 2 ^ 63"
  shows "k \<le> 63 \<Longrightarrow> (k = 0 \<or> 2 ^ (k - 1) < unat sz) \<Longrightarrow>
    \<exists>k'. k \<le> k' \<and> k' \<le> 63 \<and> SuperCeiling_loop sz (2 ^ k) = Some (2 ^ k') \<and>
         unat sz \<le> 2 ^ k' \<and> (k' = 0 \<or> 2 ^ (k' - 1) < unat sz)"
proof (induction "63 - k" arbitrary: k)
  case 0
  then have k: "k = 63" by simp
  have "\<not> (2 ^ 63 :: size_t) < sz"
    using assms by (simp add: word_less_nat_alt unat_pow2)
  then have "SuperCeiling_loop sz (2 ^ 63) = Some (2 ^ 63)"
    by (subst SuperCeiling_loop.simps) simp
  with 0 k assms show ?case by auto
next
  case (Suc d)
  then have k: "k < 63" by simp
  show ?case
  proof (cases "(2 ^ k :: size_t) < sz")
    case True
    then have lt: "2 ^ k < unat sz" using k by (simp add: word_less_nat_alt unat_pow2)
    have "d = 63 - Suc k" using Suc.hyps(2) by simp
    moreover have "Suc k \<le> 63" using k by simp
    moreover have "Suc k = 0 \<or> 2 ^ (Suc k - 1) < unat sz" using lt by simp
    ultimately obtain k' where k': "Suc k \<le> k'" "k' \<le> 63"
      "SuperCeiling_loop sz (2 ^ Suc k) = Some (2 ^ k')" "unat sz \<le> 2 ^ k'"
      "k' = 0 \<or> 2 ^ (k' - 1) < unat sz"
      using Suc.hyps(1) [of "Suc k"] by blast
    have "SuperCeiling_loop sz (2 ^ k) = SuperCeiling_loop sz (2 ^ Suc k)"
      using True by (subst SuperCeiling_loop.simps) (simp only: push_bit_1_pow if_True)
    with k' show ?thesis by (intro exI [of _ k']) simp
  next
    case False
    then have "unat sz \<le> 2 ^ k" using k by (simp add: word_less_nat_alt unat_pow2)
    moreover have "SuperCeiling_loop sz (2 ^ k) = Some (2 ^ k)"
      using False by (subst SuperCeiling_loop.simps) simp
    ultimately show ?thesis using Suc.prems by (intro exI [of _ k]) simp
  qed
qed

lemma SuperCeiling_exp:
  assumes "unat sz \<le> 2 ^ 63"
  shows "\<exists>k \<le> 63. SuperCeiling sz = Some (2 ^ k) \<and> unat sz \<le> 2 ^ k \<and>
           (k = 0 \<or> 2 ^ (k - 1) < unat sz)"
  using SuperCeiling_loop_pow [OF assms, of 0] by (auto simp: SuperCeiling_def)

lemma SuperCeiling_least:
  assumes "sz \<le> 2 ^ 63"
  shows "\<exists>p. SuperCeiling sz = Some p \<and> is_pow2 p \<and> sz \<le> p \<and>
           (\<forall>q. is_pow2 q \<and> sz \<le> q \<longrightarrow> p \<le> q)"
proof -
  from assms have "unat sz \<le> 2 ^ 63" by (simp add: word_le_nat_alt unat_pow2)
  from SuperCeiling_exp [OF this] obtain k where k: "k \<le> 63" "SuperCeiling sz = Some (2 ^ k)"
    "unat sz \<le> 2 ^ k" "k = 0 \<or> 2 ^ (k - 1) < unat sz" by blast
  have "is_pow2 (2 ^ k)" using k(1) by (auto simp: is_pow2_def)
  moreover have "sz \<le> 2 ^ k" using k(1,3) by (simp add: word_le_nat_alt unat_pow2)
  moreover have "(2::size_t) ^ k \<le> q" if q: "is_pow2 q" "sz \<le> q" for q
  proof -
    from q(1) obtain j where j: "j < 64" "q = 2 ^ j" by (auto simp: is_pow2_def)
    from q(2) j have le: "unat sz \<le> 2 ^ j" by (simp add: word_le_nat_alt unat_pow2)
    have "k \<le> j"
    proof (cases "k = 0")
      case False
      with k(4) have "2 ^ (k - 1) < unat sz" by simp
      then have "(2::nat) ^ (k - 1) < 2 ^ j" using le by (rule less_le_trans)
      then have "k - 1 < j" by simp
      with False show ?thesis by simp
    qed simp
    then have "(2::nat) ^ k \<le> 2 ^ j" by (intro power_increasing) auto
    then show ?thesis using j k(1) by (simp add: word_le_nat_alt unat_pow2)
  qed
  ultimately show ?thesis using k(2) by blast
qed

lemma pow2_or_zero_step:
  assumes "pow2_or_zero p"
  shows "unat p \<le> 2 ^ 63" and "pow2_or_zero (push_bit 1 p)"
proof -
  from assms consider "p = 0" | k where "k \<le> 63" "p = 2 ^ k"
    unfolding pow2_or_zero_def by blast
  then have "unat p \<le> 2 ^ 63 \<and> pow2_or_zero (push_bit 1 p)"
  proof cases
    case 1
    then show ?thesis by (simp add: pow2_or_zero_def)
  next
    case 2
    have "(2::nat) ^ k \<le> 2 ^ 63" using 2(1) by (intro power_increasing) auto
    then have le: "unat p \<le> 2 ^ 63" using 2 by (simp add: unat_pow2)
    show ?thesis
    proof (cases "k = 63")
      case True
      then have "push_bit 1 p = 0" using 2 by (simp add: push_bit_eq_mult)
      with le show ?thesis by (simp add: pow2_or_zero_def)
    next
      case False
      then have "Suc k \<le> 63" using 2 by simp
      moreover have "push_bit 1 p = 2 ^ Suc k" using 2 by (simp only: push_bit_1_pow)
      ultimately show ?thesis using le unfolding pow2_or_zero_def by blast
    qed
  qed
  then show "unat p \<le> 2 ^ 63" and "pow2_or_zero (push_bit 1 p)" by simp_all
qed

text \<open>
  Above \<open>2 ^ 63\<close> the loop never stops: \<open>p\<close> runs through the powers of two, the shift of
  \<open>2 ^ 63\<close> is 0, and 0 stays 0.
\<close>

lemma SuperCeiling_loop_diverges:
  assumes "SuperCeiling_loop sz p = Some y"
  shows "2 ^ 63 < unat sz \<longrightarrow> \<not> pow2_or_zero p"
  using assms
proof (rule SuperCeiling_loop.raw_induct [rotated 1])
  fix loop sz p y
  assume IH: "\<And>sz p y. loop sz p = Some y \<Longrightarrow> 2 ^ 63 < unat sz \<longrightarrow> \<not> pow2_or_zero p"
    and eq: "(if p < sz then loop sz (push_bit 1 p) else Some p) = Some (y::size_t)"
  show "2 ^ 63 < unat sz \<longrightarrow> \<not> pow2_or_zero p"
  proof (intro impI notI)
    assume big: "2 ^ 63 < unat sz" and a: "pow2_or_zero p"
    from pow2_or_zero_step(1) [OF a] big have "p < sz" by (simp add: word_less_nat_alt)
    then have rec: "loop sz (push_bit 1 p) = Some y" using eq by simp
    from IH [OF rec] big pow2_or_zero_step(2) [OF a] show False by simp
  qed
qed

lemma SuperCeiling_None:
  assumes "2 ^ 63 < unat sz"
  shows "SuperCeiling sz = None"
proof (cases "SuperCeiling sz")
  case (Some y)
  have "pow2_or_zero 1" unfolding pow2_or_zero_def by (auto dest: spec [of _ 0])
  with SuperCeiling_loop_diverges [of sz 1 y] Some assms show ?thesis
    by (simp add: SuperCeiling_def)
qed simp

lemma SuperCeiling_size_t_rounds_up:
  assumes "sz \<le> 2 ^ 63"
  shows "\<exists>p. SuperCeiling sz = Some p \<and> is_pow2 p \<and> sz \<le> p \<and>
           (\<forall>q. is_pow2 q \<and> sz \<le> q \<longrightarrow> p \<le> q) \<and>
           (is_pow2 sz \<longrightarrow> p = sz) \<and>
           (\<forall>sz'. sz' \<le> sz \<longrightarrow> (\<exists>p'. SuperCeiling sz' = Some p' \<and> p' \<le> p)) \<and>
           (sz = 0 \<longrightarrow> p = 1)"
proof -
  from SuperCeiling_least [OF assms] obtain p where p: "SuperCeiling sz = Some p" "is_pow2 p"
    "sz \<le> p" "\<forall>q. is_pow2 q \<and> sz \<le> q \<longrightarrow> p \<le> q" by blast
  have idem: "p = sz" if "is_pow2 sz"
    using p(3,4) that by (simp add: antisym)
  have mono: "\<exists>p'. SuperCeiling sz' = Some p' \<and> p' \<le> p" if "sz' \<le> sz" for sz'
  proof -
    from that assms have "sz' \<le> 2 ^ 63" by simp
    from SuperCeiling_least [OF this] obtain p' where p': "SuperCeiling sz' = Some p'"
      "\<forall>q. is_pow2 q \<and> sz' \<le> q \<longrightarrow> p' \<le> q" by blast
    from that p(3) have "sz' \<le> p" by simp
    with p' p(2) show ?thesis by blast
  qed
  have zero: "p = 1" if "sz = 0"
  proof -
    have "is_pow2 1" unfolding is_pow2_def by (auto intro: bexI [of _ 0])
    with p(4) that have "p \<le> 1" by simp
    moreover from p(2) have "p \<noteq> 0" by (auto simp: is_pow2_def)
    ultimately have "unat p = unat (1::size_t)"
      by (simp add: word_le_nat_alt unat_eq_zero le_Suc_eq)
    then show ?thesis by (simp only: word_unat_eq_iff)
  qed
  from p idem mono zero show ?thesis by blast
qed

text \<open>
  The same for \<^verbatim>\<open>int\<close>, read in the integers: powers of two up to \<open>2 ^ 30\<close> are themselves,
  and the loop stops at the least one that is not below \<open>m\<close>, provided \<open>m\<close> is at most
  \<open>2 ^ 30\<close>. Above, \<open>p\<close> goes from \<open>2 ^ 30\<close> to the least \<^verbatim>\<open>int\<close> and then to 0, and never
  reaches \<open>m\<close>.
\<close>

lemma sint_small: "- (2 ^ 31) \<le> x \<Longrightarrow> x < 2 ^ 31 \<Longrightarrow> sint (word_of_int x :: c_int) = x"
  by (simp add: signed_of_int signed_take_bit_int_eq_self)

lemma sint_pow2: "k \<le> 30 \<Longrightarrow> sint ((2::c_int) ^ k) = 2 ^ k"
proof -
  assume k: "k \<le> 30"
  have "(2::int) ^ k \<le> 2 ^ 30" using k by (intro power_increasing) auto
  then have hi: "(2::int) ^ k < 2 ^ 31" by simp
  have "- (2 ^ 31) \<le> (2::int) ^ k" by (rule order_trans [of _ 0]) simp_all
  from this hi have "sint (word_of_int (2 ^ k) :: c_int) = 2 ^ k" by (rule sint_small)
  then show ?thesis by simp
qed

lemma sint_range: "- (2 ^ 31) \<le> sint (w::c_int)" "sint (w::c_int) < 2 ^ 31"
  using sint_ge [of w] sint_lt [of w] by simp_all

lemma push_bit_1_pow_int: "push_bit 1 ((2::c_int) ^ k) = 2 ^ Suc k"
  by (simp add: push_bit_eq_mult)

lemma SuperCeiling_int_loop_pow:
  assumes "sint m \<le> 2 ^ 30"
  shows "k \<le> 30 \<Longrightarrow> (k = 0 \<or> 2 ^ (k - 1) < sint m) \<Longrightarrow>
    \<exists>k'. k \<le> k' \<and> k' \<le> 30 \<and> SuperCeiling_int_loop m (2 ^ k) = Some (2 ^ k') \<and>
         sint m \<le> 2 ^ k' \<and> (k' = 0 \<or> 2 ^ (k' - 1) < sint m)"
proof (induction "30 - k" arbitrary: k)
  case 0
  then have k: "k = 30" by simp
  have "\<not> word_sless (2 ^ 30 :: c_int) m"
    using assms sint_pow2 [of 30] by (simp add: word_sless_alt)
  then have "SuperCeiling_int_loop m (2 ^ 30) = Some (2 ^ 30)"
    by (subst SuperCeiling_int_loop.simps) simp
  with 0 k assms show ?case by auto
next
  case (Suc d)
  then have k: "k < 30" by simp
  show ?case
  proof (cases "word_sless (2 ^ k :: c_int) m")
    case True
    then have lt: "2 ^ k < sint m" using k by (simp add: word_sless_alt sint_pow2)
    have "d = 30 - Suc k" using Suc.hyps(2) by simp
    moreover have "Suc k \<le> 30" using k by simp
    moreover have "Suc k = 0 \<or> 2 ^ (Suc k - 1) < sint m" using lt by simp
    ultimately obtain k' where k': "Suc k \<le> k'" "k' \<le> 30"
      "SuperCeiling_int_loop m (2 ^ Suc k) = Some (2 ^ k')" "sint m \<le> 2 ^ k'"
      "k' = 0 \<or> 2 ^ (k' - 1) < sint m"
      using Suc.hyps(1) [of "Suc k"] by blast
    have "SuperCeiling_int_loop m (2 ^ k) = SuperCeiling_int_loop m (2 ^ Suc k)"
      using True by (subst SuperCeiling_int_loop.simps) (simp only: push_bit_1_pow_int if_True)
    with k' show ?thesis by (intro exI [of _ k']) simp
  next
    case False
    then have "sint m \<le> 2 ^ k" using k by (simp add: word_sless_alt sint_pow2)
    moreover have "SuperCeiling_int_loop m (2 ^ k) = Some (2 ^ k)"
      using False by (subst SuperCeiling_int_loop.simps) simp
    ultimately show ?thesis using Suc.prems by (intro exI [of _ k]) simp
  qed
qed

lemma SuperCeiling_int_least:
  assumes "word_sle m (2 ^ 30)"
  shows "\<exists>p. SuperCeiling_int m = Some p \<and> is_pow2_int p \<and> word_sle m p \<and>
           (\<forall>q. is_pow2_int q \<and> word_sle m q \<longrightarrow> word_sle p q)"
proof -
  from assms have "sint m \<le> 2 ^ 30" using sint_pow2 [of 30] by (simp add: word_sle_eq)
  from SuperCeiling_int_loop_pow [OF this, of 0] obtain k where k: "k \<le> 30"
    "SuperCeiling_int m = Some (2 ^ k)" "sint m \<le> 2 ^ k" "k = 0 \<or> 2 ^ (k - 1) < sint m"
    by (auto simp: SuperCeiling_int_def)
  have "is_pow2_int (2 ^ k)" using k(1) by (auto simp: is_pow2_int_def)
  moreover have "word_sle m (2 ^ k)" using k(1,3) by (simp add: word_sle_eq sint_pow2)
  moreover have "word_sle ((2::c_int) ^ k) q" if q: "is_pow2_int q" "word_sle m q" for q
  proof -
    from q(1) obtain j where "j < 31" and j2: "q = 2 ^ j" by (auto simp: is_pow2_int_def)
    then have "j \<le> 30" by simp
    note j = this j2
    from q(2) j have le: "sint m \<le> 2 ^ j" by (simp add: word_sle_eq sint_pow2)
    have "k \<le> j"
    proof (cases "k = 0")
      case False
      with k(4) have "2 ^ (k - 1) < sint m" by simp
      then have "(2::int) ^ (k - 1) < 2 ^ j" using le by (rule less_le_trans)
      then have "k - 1 < j" by simp
      with False show ?thesis by simp
    qed simp
    then have "(2::int) ^ k \<le> 2 ^ j" by (intro power_increasing) auto
    then show ?thesis using j k(1) by (simp add: word_sle_eq sint_pow2)
  qed
  ultimately show ?thesis using k(2) by blast
qed

lemma pow2_or_zero_int_step:
  assumes "pow2_or_zero_int p"
  shows "sint p \<le> 2 ^ 30" and "pow2_or_zero_int (push_bit 1 p)"
proof -
  from assms have "p = 0 \<or> (\<exists>k. (k = 31 \<or> k \<le> 30) \<and> p = 2 ^ k)"
    unfolding pow2_or_zero_int_def by (metis le_Suc_eq eval_nat_numeral(3) Suc_numeral semiring_norm(5) semiring_norm(2) semiring_norm(8))
  then consider "p = 0" | "p = 2 ^ 31" | k where "k \<le> 30" "p = 2 ^ k" by blast
  then have "sint p \<le> 2 ^ 30 \<and> pow2_or_zero_int (push_bit 1 p)"
  proof cases
    case 1
    then show ?thesis by (simp add: pow2_or_zero_int_def)
  next
    case 2
    then show ?thesis by (simp add: pow2_or_zero_int_def)
  next
    case 3
    have "(2::int) ^ k \<le> 2 ^ 30" using 3(1) by (intro power_increasing) auto
    then have le: "sint p \<le> 2 ^ 30" using 3 by (simp add: sint_pow2)
    have "Suc k \<le> 31" using 3 by simp
    moreover have "push_bit 1 p = 2 ^ Suc k" using 3 by (simp only: push_bit_1_pow_int)
    ultimately show ?thesis using le unfolding pow2_or_zero_int_def by blast
  qed
  then show "sint p \<le> 2 ^ 30" and "pow2_or_zero_int (push_bit 1 p)" by simp_all
qed

lemma SuperCeiling_int_loop_diverges:
  assumes "SuperCeiling_int_loop m p = Some y"
  shows "2 ^ 30 < sint m \<longrightarrow> \<not> pow2_or_zero_int p"
  using assms
proof (rule SuperCeiling_int_loop.raw_induct [rotated 1])
  fix loop m p y
  assume IH: "\<And>m p y. loop m p = Some y \<Longrightarrow> 2 ^ 30 < sint m \<longrightarrow> \<not> pow2_or_zero_int p"
    and eq: "(if word_sless p m then loop m (push_bit 1 p) else Some p) = Some (y::c_int)"
  show "2 ^ 30 < sint m \<longrightarrow> \<not> pow2_or_zero_int p"
  proof (intro impI notI)
    assume big: "2 ^ 30 < sint m" and a: "pow2_or_zero_int p"
    from pow2_or_zero_int_step(1) [OF a] big have "word_sless p m" by (simp add: word_sless_alt)
    then have rec: "loop m (push_bit 1 p) = Some y" using eq by simp
    from IH [OF rec] big pow2_or_zero_int_step(2) [OF a] show False by simp
  qed
qed

lemma SuperCeiling_int_None:
  assumes "2 ^ 30 < sint m"
  shows "SuperCeiling_int m = None"
proof (cases "SuperCeiling_int m")
  case (Some y)
  have "pow2_or_zero_int 1" unfolding pow2_or_zero_int_def by (auto dest: spec [of _ 0])
  with SuperCeiling_int_loop_diverges [of m 1 y] Some assms show ?thesis
    by (simp add: SuperCeiling_int_def)
qed simp

lemma SuperCeiling_int_rounds_up:
  assumes "word_sle m (2 ^ 30)"
  shows "\<exists>p. SuperCeiling_int m = Some p \<and> is_pow2_int p \<and> word_sle m p \<and>
           (\<forall>q. is_pow2_int q \<and> word_sle m q \<longrightarrow> word_sle p q) \<and>
           (is_pow2_int m \<longrightarrow> p = m) \<and>
           (\<forall>m'. word_sle m' m \<longrightarrow> (\<exists>p'. SuperCeiling_int m' = Some p' \<and> word_sle p' p)) \<and>
           (m = 0 \<longrightarrow> p = 1)"
proof -
  from SuperCeiling_int_least [OF assms] obtain p where p: "SuperCeiling_int m = Some p"
    "is_pow2_int p" "word_sle m p" "\<forall>q. is_pow2_int q \<and> word_sle m q \<longrightarrow> word_sle p q" by blast
  have idem: "p = m" if "is_pow2_int m"
  proof -
    from p(4) that have "word_sle p m" by (simp add: word_sle_eq)
    with p(3) have "sint p = sint m" by (simp add: word_sle_eq)
    then show ?thesis by (rule signed_word_eqI)
  qed
  have mono: "\<exists>p'. SuperCeiling_int m' = Some p' \<and> word_sle p' p" if "word_sle m' m" for m'
  proof -
    from that assms have "word_sle m' (2 ^ 30)" by (simp add: word_sle_eq)
    from SuperCeiling_int_least [OF this] obtain p' where p': "SuperCeiling_int m' = Some p'"
      "\<forall>q. is_pow2_int q \<and> word_sle m' q \<longrightarrow> word_sle p' q" by blast
    from that p(3) have "word_sle m' p" by (simp add: word_sle_eq)
    with p' p(2) show ?thesis by blast
  qed
  have zero: "p = 1" if "m = 0"
    using that p(1) by (simp add: SuperCeiling_int_def SuperCeiling_int_loop.simps word_sless_alt)
  from p idem mono zero show ?thesis by blast
qed

text \<open>
  C7, as the code has it. For every \<open>sz\<close> up to \<open>2 ^ 63\<close>, the largest power of two a
  \<^verbatim>\<open>size_t\<close> holds, \<open>SuperCeiling sz\<close> of \<^verbatim>\<open>src/c/segtree.c\<close> returns a power of two that is at
  least \<open>sz\<close> and is the least such; it returns \<open>sz\<close> itself when \<open>sz\<close> is a power of two; it is
  monotonic; and \<open>SuperCeiling 0\<close> is 1. The same holds for \<open>SuperCeiling_int m\<close> of
  \<^verbatim>\<open>src/segtree.c\<close> for every \<open>m\<close> up to \<open>2 ^ 30\<close>, the largest power of two an \<^verbatim>\<open>int\<close> holds,
  in the signed order.
\<close>

theorem SuperCeiling_rounds_up:
  "(sz \<le> 2 ^ 63 \<longrightarrow>
      (\<exists>p. SuperCeiling sz = Some p \<and> is_pow2 p \<and> sz \<le> p \<and>
           (\<forall>q. is_pow2 q \<and> sz \<le> q \<longrightarrow> p \<le> q) \<and>
           (is_pow2 sz \<longrightarrow> p = sz) \<and>
           (\<forall>sz'. sz' \<le> sz \<longrightarrow> (\<exists>p'. SuperCeiling sz' = Some p' \<and> p' \<le> p)) \<and>
           (sz = 0 \<longrightarrow> p = 1))) \<and>
   (word_sle m (2 ^ 30) \<longrightarrow>
      (\<exists>p. SuperCeiling_int m = Some p \<and> is_pow2_int p \<and> word_sle m p \<and>
           (\<forall>q. is_pow2_int q \<and> word_sle m q \<longrightarrow> word_sle p q) \<and>
           (is_pow2_int m \<longrightarrow> p = m) \<and>
           (\<forall>m'. word_sle m' m \<longrightarrow>
              (\<exists>p'. SuperCeiling_int m' = Some p' \<and> word_sle p' p)) \<and>
           (m = 0 \<longrightarrow> p = 1)))"
  using SuperCeiling_size_t_rounds_up [of sz] SuperCeiling_int_rounds_up [of m] by blast

theorem SuperCeiling_rounds_up_witness:
  "(7::size_t) \<le> 2 ^ 63 \<and> word_sle (7::c_int) (2 ^ 30) \<and>
   (\<exists>p. SuperCeiling 7 = Some p \<and> is_pow2 p \<and> 7 \<le> p \<and>
      (\<forall>q. is_pow2 q \<and> 7 \<le> q \<longrightarrow> p \<le> q) \<and>
      (is_pow2 7 \<longrightarrow> p = 7) \<and>
      (\<forall>sz'. sz' \<le> 7 \<longrightarrow> (\<exists>p'. SuperCeiling sz' = Some p' \<and> p' \<le> p)) \<and>
      ((7::size_t) = 0 \<longrightarrow> p = 1)) \<and>
   (\<exists>p. SuperCeiling_int 7 = Some p \<and> is_pow2_int p \<and> word_sle 7 p \<and>
      (\<forall>q. is_pow2_int q \<and> word_sle 7 q \<longrightarrow> word_sle p q) \<and>
      (is_pow2_int 7 \<longrightarrow> p = 7) \<and>
      (\<forall>m'. word_sle m' 7 \<longrightarrow> (\<exists>p'. SuperCeiling_int m' = Some p' \<and> word_sle p' p)) \<and>
      ((7::c_int) = 0 \<longrightarrow> p = 1))"
proof -
  have h: "(7::size_t) \<le> 2 ^ 63" "word_sle (7::c_int) (2 ^ 30)"
    by (simp_all add: word_sle_eq)
  from SuperCeiling_rounds_up [of 7 7] h show ?thesis by blast
qed

text \<open>
  C7, as the spec states it, for every \<open>n\<close>: at \<open>2 ^ 63 + 1\<close> the loop of \<open>SuperCeiling\<close> over
  \<^verbatim>\<open>size_t\<close> does not return, and at \<open>2 ^ 30 + 1\<close> the loop over \<^verbatim>\<open>int\<close> does not return.
\<close>

theorem SuperCeiling_above_2_63_diverges:
  "SuperCeiling (2 ^ 63 + 1) = None \<and> SuperCeiling_int (2 ^ 30 + 1) = None"
proof -
  have "SuperCeiling (2 ^ 63 + 1) = None" by (rule SuperCeiling_None) simp
  moreover have "SuperCeiling_int (2 ^ 30 + 1) = None" by (rule SuperCeiling_int_None) simp
  ultimately show ?thesis by simp
qed

section \<open>The query and the assignment on a well-shaped tree\<close>

text \<open>For an associative operator the fold of a concatenation is the combination of the folds.\<close>

lemma fold_combine_append:
  assumes assoc: "\<And>a b c. g (g a b) c = g a (g b c)"
  shows "xs \<noteq> [] \<Longrightarrow> ys \<noteq> [] \<Longrightarrow>
    fold_combine g e (xs @ ys) = g (fold_combine g e xs) (fold_combine g e ys)"
proof (induction xs)
  case Nil
  then show ?case by simp
next
  case (Cons x xs)
  show ?case
  proof (cases xs)
    case Nil
    with Cons.prems show ?thesis by (cases ys) simp_all
  next
    case (Cons y ys')
    with Cons.IH Cons.prems show ?thesis by (simp add: assoc)
  qed
qed

lemma leaves_split:
  "a \<le> m \<Longrightarrow> m \<le> b \<Longrightarrow> leaves xs c a b = leaves xs c a m @ leaves xs c m b"
  using upt_add_eq_append [of a m "b - m"] by (simp add: leaves_def)

lemma leaves_Nil_iff: "leaves xs c a b = [] \<longleftrightarrow> b \<le> a"
  by (auto simp: leaves_def)

lemma leaves_single: "leaves xs c a (Suc a) = [xs ! (c + a)]"
  by (simp add: leaves_def)

lemma fold_leaves_split:
  assumes assoc: "\<And>a b c. g (g a b) c = g a (g b c)"
    and "a < m" "m < b"
  shows "fold_combine g e (leaves xs c a b) =
    g (fold_combine g e (leaves xs c a m)) (fold_combine g e (leaves xs c m b))"
proof -
  have "leaves xs c a b = leaves xs c a m @ leaves xs c m b"
    using assms(2,3) by (intro leaves_split) simp_all
  moreover have "leaves xs c a m \<noteq> []" "leaves xs c m b \<noteq> []"
    using assms(2,3) by (simp_all add: leaves_Nil_iff)
  ultimately show ?thesis by (simp add: fold_combine_append [OF assoc])
qed

text \<open>
  Where every internal node is the combination of its children, the node \<open>v\<close> at height \<open>h\<close>
  holds the fold over the \<open>2 ^ h\<close> leaves of its block, which starts at the logical position \<open>l\<close>:
  \<open>v * 2 ^ h = c + l\<close> for the capacity \<open>c\<close>.
\<close>

lemma node_value:
  assumes assoc: "\<And>a b c. g (g a b) c = g a (g b c)"
    and ok: "\<forall>i \<in> {1..<c}. xs ! i = g (xs ! (2 * i)) (xs ! (2 * i + 1))"
  shows "v * 2 ^ h = c + l \<Longrightarrow> l + 2 ^ h \<le> c \<Longrightarrow>
    xs ! v = fold_combine g e (leaves xs c l (l + 2 ^ h))"
proof (induction h arbitrary: v l)
  case 0
  then show ?case by (simp add: leaves_single)
next
  case (Suc h)
  have p: "(0::nat) < 2 ^ h" by simp
  have "v * 2 \<le> v * 2 ^ Suc h" by (intro mult_le_mono2) simp
  moreover have "(1::nat) \<le> 2 ^ h" "(2::nat) ^ Suc h = 2 * 2 ^ h" by simp_all
  ultimately have "v < c" using Suc.prems by linarith
  moreover have "1 \<le> v"
  proof (rule ccontr)
    assume "\<not> 1 \<le> v"
    then have "v = 0" by simp
    with Suc.prems p show False by simp
  qed
  ultimately have v: "xs ! v = g (xs ! (2 * v)) (xs ! (2 * v + 1))" using ok by simp
  have L: "xs ! (2 * v) = fold_combine g e (leaves xs c l (l + 2 ^ h))"
    using Suc.prems by (intro Suc.IH) (simp_all add: mult.assoc)
  have "(2 * v + 1) * 2 ^ h = c + (l + 2 ^ h)"
    using Suc.prems(1) by (simp add: algebra_simps)
  moreover have "(l + 2 ^ h) + 2 ^ h \<le> c" using Suc.prems(2) by simp
  ultimately have "xs ! (2 * v + 1) = fold_combine g e (leaves xs c (l + 2 ^ h) (l + 2 ^ h + 2 ^ h))"
    by (rule Suc.IH)
  moreover have "l + 2 ^ h + 2 ^ h = l + 2 ^ Suc h" by simp
  ultimately have R: "xs ! (2 * v + 1) = fold_combine g e (leaves xs c (l + 2 ^ h) (l + 2 ^ Suc h))"
    by (simp only:)
  have "fold_combine g e (leaves xs c l (l + 2 ^ Suc h)) =
        g (fold_combine g e (leaves xs c l (l + 2 ^ h)))
          (fold_combine g e (leaves xs c (l + 2 ^ h) (l + 2 ^ Suc h)))"
    using p by (intro fold_leaves_split [OF assoc]) simp_all
  with v L R show ?case by simp
qed

text \<open>
  The index arithmetic of \<open>f\<close> read in the natural numbers: below \<open>2 ^ 62\<close> no sum, double or
  successor wraps.
\<close>

lemma unat_min_sz: "unat (min_sz a b) = min (unat a) (unat b)"
  by (simp add: min_sz_def word_less_nat_alt)

lemma unat_max_sz: "unat (max_sz a b) = max (unat a) (unat b)"
  by (simp add: max_sz_def word_less_nat_alt)

lemma unat_LeftChild: "unat v < 2 ^ 63 \<Longrightarrow> unat (LeftChild v) = 2 * unat v"
proof -
  assume "unat v < 2 ^ 63"
  then have "unat (2::size_t) * unat v < 2 ^ LENGTH(64)" by simp
  then have "unat (2 * v) = unat (2::size_t) * unat v" by (simp only: unat_mult_lem)
  then show ?thesis by (simp add: LeftChild_def)
qed

lemma unat_Suc_word: "unat (w::size_t) < 2 ^ 63 \<Longrightarrow> unat (w + 1) = unat w + 1"
proof -
  assume "unat w < 2 ^ 63"
  then have "unat w + unat (1::size_t) < 2 ^ LENGTH(64)" by simp
  then have "unat (w + 1) = unat w + unat (1::size_t)" by (simp only: unat_add_lem)
  then show ?thesis by simp
qed

lemma unat_RightChild: "unat v < 2 ^ 62 \<Longrightarrow> unat (RightChild v) = 2 * unat v + 1"
proof -
  assume v: "unat v < 2 ^ 62"
  then have "unat (LeftChild v) = 2 * unat v" by (intro unat_LeftChild) simp
  moreover from this v have "unat (LeftChild v) < 2 ^ 63" by simp
  ultimately show ?thesis
    using unat_Suc_word [of "LeftChild v"] by (simp add: RightChild_def LeftChild_def)
qed

lemma unat_mid:
  assumes "unat (l::size_t) < 2 ^ 62" "unat (r::size_t) < 2 ^ 62"
  shows "unat ((l + r) div 2) = (unat l + unat r) div 2"
proof -
  from assms have "unat l + unat r < 2 ^ LENGTH(64)" by simp
  then have "unat (l + r) = unat l + unat r" by (simp only: unat_add_lem)
  then show ?thesis by (simp add: unat_div)
qed

text \<open>
  One step of the recursion: the block \<open>[l, r]\<close> of \<open>2 ^ Suc h\<close> positions under the node \<open>v\<close>
  splits at \<open>m = (l + r) div 2\<close> into the block \<open>[l, m]\<close> under the left child and the block
  \<open>[m + 1, r]\<close> under the right child.
\<close>

lemma split_facts:
  assumes v: "unat (v::size_t) * 2 ^ Suc h = c + unat (l::size_t)"
    and r: "unat (r::size_t) + 1 = unat l + 2 ^ Suc h"
    and rc: "unat r < c" and c: "c \<le> 2 ^ 62"
  shows "unat ((l + r) div 2) + 1 = unat l + 2 ^ h"
    and "unat ((l + r) div 2 + 1) = unat l + 2 ^ h"
    and "unat (LeftChild v) * 2 ^ h = c + unat l"
    and "unat (RightChild v) * 2 ^ h = c + (unat l + 2 ^ h)"
    and "unat ((l + r) div 2) < unat r"
    and "unat l \<le> unat ((l + r) div 2)"
proof -
  define q :: nat where "q = 2 ^ h"
  have q: "1 \<le> q" "(2::nat) ^ Suc h = 2 * q" by (simp_all add: q_def)
  from r rc c q have lr: "unat l < 2 ^ 62" "unat r < 2 ^ 62" by linarith+
  have "unat v * 2 \<le> unat v * 2 ^ Suc h" by (intro mult_le_mono2) simp
  with v r rc q have vc: "unat v < c" by linarith
  with c have v62: "unat v < 2 ^ 62" by simp
  have m: "unat ((l + r) div 2) = (unat l + unat r) div 2" using lr by (rule unat_mid)
  from r q have "unat l + unat r = 2 * (unat l + q - 1) + 1" by linarith
  then have "(unat l + unat r) div 2 = unat l + q - 1" by simp
  with m q show m1: "unat ((l + r) div 2) + 1 = unat l + 2 ^ h" by (simp add: q_def)
  from m1 r q show "unat ((l + r) div 2) < unat r" unfolding q_def by linarith
  from m1 q show "unat l \<le> unat ((l + r) div 2)" unfolding q_def by linarith
  from m1 r rc c q have "unat ((l + r) div 2) < 2 ^ 63" by (simp add: q_def)
  with m1 show "unat ((l + r) div 2 + 1) = unat l + 2 ^ h" by (simp add: unat_Suc_word)
  have "unat (LeftChild v) = 2 * unat v" using v62 by (intro unat_LeftChild) simp
  with v show "unat (LeftChild v) * 2 ^ h = c + unat l" by (simp add: algebra_simps)
  have "unat (RightChild v) = 2 * unat v + 1" using v62 by (rule unat_RightChild)
  with v show "unat (RightChild v) * 2 ^ h = c + (unat l + 2 ^ h)" by (simp add: algebra_simps)
qed

lemma f_exact: "f g s v l r l r = Some (read_A (A s) v)"
  by (subst f.simps) simp

lemma f_split:
  "\<not> (l = i \<and> r = j) \<Longrightarrow> f g s v l r i j =
     (let m = (l + r) div 2 in
        do { t1 \<leftarrow> (if i \<le> m then f g s (LeftChild v) l m i (min_sz m j)
                    else Some (Inr (identity s)));
             (case t1 of
                Inl e \<Rightarrow> Some (Inl e)
              | Inr a \<Rightarrow>
                 do { t2 \<leftarrow> (if j > m then f g s (RightChild v) (m + 1) r (max_sz i (m + 1)) j
                             else Some (Inr (identity s)));
                      (case t2 of
                         Inl e \<Rightarrow> Some (Inl e)
                       | Inr b \<Rightarrow> Some (Inr (g a b))) }) })"
proof -
  assume a: "\<not> (l = i \<and> r = j)"
  show ?thesis by (subst f.simps) (simp only: a if_False)
qed

lemma read_A_in: "unat v < length xs \<Longrightarrow> read_A xs v = Inr (xs ! unat v)"
  by (simp add: read_A_def)

text \<open>
  For a query inside the block, in either order of \<open>i\<close> and \<open>j\<close>, the recursion returns, and
  every read is inside the array.
\<close>

lemma f_returns:
  assumes len: "length (A s) = 2 * c" and c: "c \<le> 2 ^ 62"
  shows "unat v * 2 ^ h = c + unat l \<Longrightarrow> unat r + 1 = unat l + 2 ^ h \<Longrightarrow> unat r < c \<Longrightarrow>
    unat l \<le> unat i \<Longrightarrow> unat i \<le> unat r \<Longrightarrow> unat l \<le> unat j \<Longrightarrow> unat j \<le> unat r \<Longrightarrow>
    \<exists>y. f g s v l r i j = Some (Inr y)"
proof (induction h arbitrary: v l r i j)
  case 0
  then have "l = i" "r = j" by (simp_all add: word_unat_eq_iff)
  moreover from 0 have "unat v < length (A s)" using len by simp
  ultimately show ?case by (simp add: f_exact read_A_in)
next
  case (Suc h)
  show ?case
  proof (cases "l = i \<and> r = j")
    case True
    have "unat v * 1 \<le> unat v * 2 ^ Suc h" by (intro mult_le_mono2) simp
    with Suc.prems have "unat v < length (A s)" using len by simp
    with True show ?thesis by (simp add: f_exact read_A_in)
  next
    case False
    define m where "m = (l + r) div 2"
    note sf = split_facts [OF Suc.prems(1,2,3) c, folded m_def]
    have mr: "unat m < unat r" by (rule sf(5))
    have left: "\<exists>y. f g s (LeftChild v) l m i (min_sz m j) = Some (Inr y)" if "i \<le> m"
    proof (rule Suc.IH)
      show "unat (LeftChild v) * 2 ^ h = c + unat l" by (rule sf(3))
      show "unat m + 1 = unat l + 2 ^ h" by (rule sf(1))
      show "unat m < c" using mr Suc.prems(3) by simp
      show "unat l \<le> unat i" by (rule Suc.prems(4))
      show "unat i \<le> unat m" using that by (simp add: word_le_nat_alt)
      show "unat l \<le> unat (min_sz m j)" using Suc.prems(6) sf(6) by (simp add: unat_min_sz)
      show "unat (min_sz m j) \<le> unat m" by (simp add: unat_min_sz)
    qed
    have right: "\<exists>y. f g s (RightChild v) (m + 1) r (max_sz i (m + 1)) j = Some (Inr y)" if "m < j"
    proof (rule Suc.IH)
      show "unat (RightChild v) * 2 ^ h = c + unat (m + 1)" using sf(2,4) by simp
      show "unat r + 1 = unat (m + 1) + 2 ^ h" using sf(2) Suc.prems(2) by simp
      show "unat r < c" by (rule Suc.prems(3))
      show "unat (m + 1) \<le> unat (max_sz i (m + 1))" by (simp add: unat_max_sz)
      show "unat (max_sz i (m + 1)) \<le> unat r"
        using Suc.prems(5) sf(1,2) mr by (simp add: unat_max_sz)
      show "unat (m + 1) \<le> unat j" using that sf(1,2) by (simp add: word_less_nat_alt)
      show "unat j \<le> unat r" by (rule Suc.prems(7))
    qed
    obtain t1 where t1: "(if i \<le> m then f g s (LeftChild v) l m i (min_sz m j)
                    else Some (Inr (identity s))) = Some (Inr t1)"
      using left by (cases "i \<le> m") auto
    obtain t2 where t2: "(if j > m then f g s (RightChild v) (m + 1) r (max_sz i (m + 1)) j
                             else Some (Inr (identity s))) = Some (Inr t2)"
      using right by (cases "m < j") auto
    have "f g s v l r i j = Some (Inr (g t1 t2))"
      using False t1 t2 by (simp add: f_split m_def [symmetric] Let_def)
    then show ?thesis by blast
  qed
qed

text \<open>
  For \<open>i \<le> j\<close> inside the block, an associative operator whose identity is the one of the tree,
  and internal nodes that are the combination of their children, the recursion returns the
  fold over the leaves \<open>i, \<dots>, j\<close>.
\<close>

lemma f_value:
  assumes assoc: "\<And>a b c. g (g a b) c = g a (g b c)"
    and idl: "\<And>x. g (identity s) x = x" and idr: "\<And>x. g x (identity s) = x"
    and len: "length (A s) = 2 * c" and c: "c \<le> 2 ^ 62"
    and ok: "\<forall>i \<in> {1..<c}. A s ! i = g (A s ! (2 * i)) (A s ! (2 * i + 1))"
  shows "unat v * 2 ^ h = c + unat l \<Longrightarrow> unat r + 1 = unat l + 2 ^ h \<Longrightarrow> unat r < c \<Longrightarrow>
    unat l \<le> unat i \<Longrightarrow> unat i \<le> unat j \<Longrightarrow> unat j \<le> unat r \<Longrightarrow>
    f g s v l r i j = Some (Inr (fold_combine g e (leaves (A s) c (unat i) (unat j + 1))))"
proof (induction h arbitrary: v l r i j)
  case 0
  then have eq: "l = i" "r = j" by (simp_all add: word_unat_eq_iff)
  from 0 have "unat v < length (A s)" using len by simp
  moreover from 0 eq have "A s ! unat v = fold_combine g e (leaves (A s) c (unat i) (unat j + 1))"
    by (simp add: leaves_single)
  ultimately show ?case using eq by (simp add: f_exact read_A_in)
next
  case (Suc h)
  show ?case
  proof (cases "l = i \<and> r = j")
    case True
    have "unat v * 1 \<le> unat v * 2 ^ Suc h" by (intro mult_le_mono2) simp
    with Suc.prems have "unat v < length (A s)" using len by simp
    moreover have "A s ! unat v = fold_combine g e (leaves (A s) c (unat l) (unat l + 2 ^ Suc h))"
      using Suc.prems(1,2,3) by (intro node_value [OF assoc ok]) simp_all
    ultimately show ?thesis using True Suc.prems(2) by (simp add: f_exact read_A_in)
  next
    case False
    define m where "m = (l + r) div 2"
    note sf = split_facts [OF Suc.prems(1,2,3) c, folded m_def]
    have callL: "f g s (LeftChild v) l m i (min_sz m j) =
        Some (Inr (fold_combine g e (leaves (A s) c (unat i) (unat (min_sz m j) + 1))))"
      if "i \<le> m"
    proof (rule Suc.IH)
      show "unat (LeftChild v) * 2 ^ h = c + unat l" by (rule sf(3))
      show "unat m + 1 = unat l + 2 ^ h" by (rule sf(1))
      show "unat m < c" using sf(5) Suc.prems(3) by simp
      show "unat l \<le> unat i" by (rule Suc.prems(4))
      show "unat i \<le> unat (min_sz m j)"
        using that Suc.prems(5) by (simp add: unat_min_sz word_le_nat_alt)
      show "unat (min_sz m j) \<le> unat m" by (simp add: unat_min_sz)
    qed
    have callR: "f g s (RightChild v) (m + 1) r (max_sz i (m + 1)) j =
        Some (Inr (fold_combine g e (leaves (A s) c (unat (max_sz i (m + 1))) (unat j + 1))))"
      if "m < j"
    proof (rule Suc.IH)
      show "unat (RightChild v) * 2 ^ h = c + unat (m + 1)" using sf(2,4) by simp
      show "unat r + 1 = unat (m + 1) + 2 ^ h" using sf(2) Suc.prems(2) by simp
      show "unat r < c" by (rule Suc.prems(3))
      show "unat (m + 1) \<le> unat (max_sz i (m + 1))" by (simp add: unat_max_sz)
      show "unat (max_sz i (m + 1)) \<le> unat j"
        using that Suc.prems(5) sf(1,2) by (simp add: unat_max_sz word_less_nat_alt)
      show "unat j \<le> unat r" by (rule Suc.prems(6))
    qed
    consider (both) "i \<le> m" "m < j" | (left) "i \<le> m" "\<not> m < j" | (right) "\<not> i \<le> m"
      by blast
    then show ?thesis
    proof cases
      case both
      have um: "unat (min_sz m j) = unat m" "unat (max_sz i (m + 1)) = unat m + 1"
        using both sf(1,2) by (simp_all add: unat_min_sz unat_max_sz word_le_nat_alt word_less_nat_alt)
      have "fold_combine g e (leaves (A s) c (unat i) (unat j + 1)) =
            g (fold_combine g e (leaves (A s) c (unat i) (unat m + 1)))
              (fold_combine g e (leaves (A s) c (unat m + 1) (unat j + 1)))"
        using both by (intro fold_leaves_split [OF assoc]) (simp_all add: word_le_nat_alt word_less_nat_alt)
      then show ?thesis
        using False both callL callR um by (simp add: f_split m_def [symmetric] Let_def)
    next
      case left
      have "unat (min_sz m j) = unat j"
        using left by (simp add: unat_min_sz word_less_nat_alt)
      then show ?thesis
        using False left callL by (simp add: f_split m_def [symmetric] Let_def idr)
    next
      case right
      then have mi: "unat m < unat i" by (simp add: word_le_nat_alt)
      with Suc.prems(5) have mj: "m < j" by (simp add: word_less_nat_alt)
      have "unat (max_sz i (m + 1)) = unat i"
        using mi sf(1,2) by (simp add: unat_max_sz)
      then show ?thesis
        using False right mj callR by (simp add: f_split m_def [symmetric] Let_def idl)
    qed
  qed
qed

text \<open>The path the loop of \<open>Assign\<close> walks, and what a write on it leaves untouched.\<close>

lemma on_path_0: "\<not> on_path k 0"
  by (simp add: on_path_def)

lemma on_path_step: "on_path k i \<longleftrightarrow> 1 \<le> k \<and> (k = i \<or> on_path k (i div 2))"
proof
  assume "on_path k i"
  then obtain t where k: "1 \<le> k" "k = i div 2 ^ t" by (auto simp: on_path_def)
  show "1 \<le> k \<and> (k = i \<or> on_path k (i div 2))"
  proof (cases t)
    case 0
    with k show ?thesis by simp
  next
    case (Suc t')
    with k have "k = (i div 2) div 2 ^ t'" by (simp add: div_mult2_eq)
    with k(1) show ?thesis by (auto simp: on_path_def)
  qed
next
  assume a: "1 \<le> k \<and> (k = i \<or> on_path k (i div 2))"
  then consider "k = i" | "on_path k (i div 2)" by blast
  then show "on_path k i"
  proof cases
    case 1
    then have "k = i div 2 ^ 0" by simp
    with a show ?thesis unfolding on_path_def by blast
  next
    case 2
    then obtain t where "k = (i div 2) div 2 ^ t" by (auto simp: on_path_def)
    then have "k = i div 2 ^ Suc t" by (simp add: div_mult2_eq)
    with a show ?thesis unfolding on_path_def by blast
  qed
qed

lemma off_path_neq:
  assumes "1 \<le> k" "\<not> on_path k p"
  shows "k \<noteq> p" "2 * k \<noteq> p" "2 * k + 1 \<noteq> p"
proof -
  from assms show "k \<noteq> p" by (subst (asm) on_path_step) simp
  have "k \<noteq> p div 2"
    using assms by (subst (asm) on_path_step, subst (asm) on_path_step) auto
  then show "2 * k \<noteq> p" "2 * k + 1 \<noteq> p" by auto
qed

lemma write_A_in: "unat i < length xs \<Longrightarrow> write_A xs i x = Inr (xs[unat i := x])"
  by (simp add: write_A_def)

lemma unat_Parent: "unat (Parent i) = unat i div 2"
  by (simp add: Parent_def unat_div)

text \<open>
  The loop invariant of \<open>Assign\<close>: entered at \<open>i\<close> with every internal node off the path from \<open>i\<close>
  to the root equal to the combination of its children, the loop ends with every internal
  node so, writes no leaf and reads inside the array.
\<close>

lemma Assign_loop_restores:
  fixes xs :: "'a list"
  assumes c: "c \<le> 2 ^ 62"
  shows "length xs = 2 * c \<Longrightarrow> unat i < c \<Longrightarrow>
    (\<forall>k \<in> {1..<c}. \<not> on_path k (unat i) \<longrightarrow> xs ! k = g (xs ! (2 * k)) (xs ! (2 * k + 1))) \<Longrightarrow>
    \<exists>xs'. Assign_loop g xs i = Inr xs' \<and> length xs' = 2 * c \<and>
      (\<forall>k \<ge> c. xs' ! k = xs ! k) \<and> xs' ! 0 = xs ! 0 \<and>
      (\<forall>k \<in> {1..<c}. xs' ! k = g (xs' ! (2 * k)) (xs' ! (2 * k + 1)))"
proof (induction "unat i" arbitrary: i xs rule: less_induct)
  case less
  show ?case
  proof (cases "i = 0")
    case True
    then have "Assign_loop g xs i = Inr xs" by (subst Assign_loop.simps) simp
    moreover have "\<forall>k \<in> {1..<c}. xs ! k = g (xs ! (2 * k)) (xs ! (2 * k + 1))"
      using less.prems(3) True by (simp add: on_path_0)
    ultimately show ?thesis using less.prems(1) by simp
  next
    case False
    then have pos: "0 < i" "1 \<le> unat i" by (simp_all add: word_neq_0_conv unat_gt_0 Suc_leI)
    from less.prems(2) c have i62: "unat i < 2 ^ 62" by simp
    have uL: "unat (LeftChild i) = 2 * unat i" using i62 by (intro unat_LeftChild) simp
    have uR: "unat (RightChild i) = 2 * unat i + 1" using i62 by (rule unat_RightChild)
    define y where "y = g (xs ! (2 * unat i)) (xs ! (2 * unat i + 1))"
    define xs1 where "xs1 = xs[unat i := y]"
    have rdL: "read_A xs (LeftChild i) = Inr (xs ! (2 * unat i))"
      using less.prems(1,2) uL by (simp add: read_A_in)
    have rdR: "read_A xs (RightChild i) = Inr (xs ! (2 * unat i + 1))"
      using less.prems(1,2) uR by (simp add: read_A_in)
    have wr: "write_A xs i y = Inr xs1"
      using less.prems(1,2) by (simp add: write_A_in xs1_def)
    have unfold: "Assign_loop g xs i = Assign_loop g xs1 (Parent i)"
      using pos(1) rdL rdR wr by (subst Assign_loop.simps) (simp add: y_def)
    have len1: "length xs1 = 2 * c" using less.prems(1) by (simp add: xs1_def)
    have lt: "unat (Parent i) < unat i" using pos(2) by (simp add: unat_Parent)
    have pc: "unat (Parent i) < c" using lt less.prems(2) by simp
    have inv1: "\<forall>k \<in> {1..<c}. \<not> on_path k (unat (Parent i)) \<longrightarrow>
        xs1 ! k = g (xs1 ! (2 * k)) (xs1 ! (2 * k + 1))"
    proof (intro ballI impI)
      fix k assume k: "k \<in> {1..<c}" and off: "\<not> on_path k (unat (Parent i))"
      show "xs1 ! k = g (xs1 ! (2 * k)) (xs1 ! (2 * k + 1))"
      proof (cases "k = unat i")
        case True
        with pos(2) less.prems(1,2) show ?thesis by (simp add: xs1_def y_def)
      next
        case False
        with off k have off': "\<not> on_path k (unat i)"
          by (subst on_path_step) (simp add: unat_Parent)
        from k have "1 \<le> k" by simp
        note ne = off_path_neq [OF this off']
        from less.prems(3) k off' have "xs ! k = g (xs ! (2 * k)) (xs ! (2 * k + 1))" by blast
        with ne show ?thesis by (simp add: xs1_def)
      qed
    qed
    from less.hyps [OF lt len1 pc inv1] obtain xs' where xs':
      "Assign_loop g xs1 (Parent i) = Inr xs'" "length xs' = 2 * c"
      "\<forall>k \<ge> c. xs' ! k = xs1 ! k" "xs' ! 0 = xs1 ! 0"
      "\<forall>k \<in> {1..<c}. xs' ! k = g (xs' ! (2 * k)) (xs' ! (2 * k + 1))" by blast
    have "\<forall>k \<ge> c. xs' ! k = xs ! k"
      using xs'(3) less.prems(2) by (simp add: xs1_def)
    moreover have "xs' ! 0 = xs ! 0"
      using xs'(4) pos(2) by (simp add: xs1_def)
    ultimately show ?thesis using xs'(1,2,5) unfold by simp
  qed
qed

text \<open>
  \<open>Assign\<close> at an index below the capacity: the sum \<open>i + N\<close> does not wrap, the leaf is inside the
  array, and the write of the leaf breaks the equation of no node off the path from its
  parent.
\<close>

lemma Assign_in_capacity:
  fixes s :: "(size_t, 'a) SegTree"
  assumes c: "unat (N s) = c" "c \<le> 2 ^ 62" and len: "length (A s) = 2 * c"
    and ok: "\<forall>k \<in> {1..<c}. A s ! k = g (A s ! (2 * k)) (A s ! (2 * k + 1))"
    and i: "unat i < c"
  shows "\<exists>xs'. Assign g s i x = Inr (s\<lparr>A := xs'\<rparr>) \<and> length xs' = 2 * c \<and>
      (\<forall>k \<in> {1..<c}. xs' ! k = g (xs' ! (2 * k)) (xs' ! (2 * k + 1))) \<and>
      xs' ! (c + unat i) = x \<and> (\<forall>k \<ge> c. k \<noteq> c + unat i \<longrightarrow> xs' ! k = A s ! k) \<and>
      xs' ! 0 = A s ! 0"
proof -
  define p where "p = i + N s"
  have "unat i + unat (N s) < 2 ^ LENGTH(64)" using c i by simp
  then have "unat (i + N s) = unat i + unat (N s)" by (simp only: unat_add_lem)
  then have p: "unat p = c + unat i" using c by (simp add: p_def)
  define xs0 where "xs0 = (A s)[c + unat i := x]"
  have wr: "write_A (A s) p x = Inr xs0"
    using p len i by (simp add: write_A_in xs0_def)
  have len0: "length xs0 = 2 * c" using len by (simp add: xs0_def)
  have pp: "unat (Parent p) = (c + unat i) div 2" using p by (simp add: unat_Parent)
  then have pc: "unat (Parent p) < c" using i by simp
  have inv0: "\<forall>k \<in> {1..<c}. \<not> on_path k (unat (Parent p)) \<longrightarrow>
      xs0 ! k = g (xs0 ! (2 * k)) (xs0 ! (2 * k + 1))"
  proof (intro ballI impI)
    fix k assume k: "k \<in> {1..<c}" and off: "\<not> on_path k (unat (Parent p))"
    from k have k1: "1 \<le> k" by simp
    from off k1 have "k \<noteq> (c + unat i) div 2"
      by (subst (asm) on_path_step) (simp add: pp)
    then have "2 * k \<noteq> c + unat i" "2 * k + 1 \<noteq> c + unat i" by auto
    moreover from k have "k \<noteq> c + unat i" by simp
    moreover from ok k have "A s ! k = g (A s ! (2 * k)) (A s ! (2 * k + 1))" by blast
    ultimately show "xs0 ! k = g (xs0 ! (2 * k)) (xs0 ! (2 * k + 1))"
      by (simp add: xs0_def)
  qed
  from Assign_loop_restores [OF c(2) len0 pc inv0] obtain xs' where xs':
    "Assign_loop g xs0 (Parent p) = Inr xs'" "length xs' = 2 * c"
    "\<forall>k \<ge> c. xs' ! k = xs0 ! k"
    "\<forall>k \<in> {1..<c}. xs' ! k = g (xs' ! (2 * k)) (xs' ! (2 * k + 1))"
    "xs' ! 0 = xs0 ! 0" by blast
  have "Assign g s i x = Inr (s\<lparr>A := xs'\<rparr>)"
    using wr xs'(1) by (simp add: Assign_def p_def [symmetric] Let_def)
  moreover have "xs' ! (c + unat i) = x"
    using xs'(3) len i by (simp add: xs0_def)
  moreover have "\<forall>k \<ge> c. k \<noteq> c + unat i \<longrightarrow> xs' ! k = A s ! k"
    using xs'(3) by (simp add: xs0_def)
  moreover have "xs' ! 0 = A s ! 0"
    using xs'(5) i by (simp add: xs0_def)
  ultimately show ?thesis using xs'(2,4) by blast
qed

lemma last_assigned_Nil: "last_assigned e [] k = e"
  by (simp add: last_assigned_def)

lemma last_assigned_snoc:
  "last_assigned e (ops @ [(i, x)]) k = (if i = k then x else last_assigned e ops k)"
  by (simp add: last_assigned_def)

lemma Assign_all_snoc:
  "Assign_all g s (ops @ [(i, x)]) =
     (case Assign_all g s ops of Inl e \<Rightarrow> Inl e | Inr s' \<Rightarrow> Assign g s' i x)"
  by (induction g s ops rule: Assign_all.induct) (simp_all split: sum.splits)

lemma shape_unat:
  assumes "shape s"
  shows "\<exists>k \<le> 62. unat (N s) = 2 ^ k" "unat (N s) \<le> 2 ^ 62" "length (A s) = 2 * unat (N s)"
proof -
  from assms obtain k where k: "k < 64" "N s = 2 ^ k" by (auto simp: shape_def is_pow2_def)
  from assms have le: "N s \<le> 2 ^ 62" by (simp add: shape_def)
  then show le': "unat (N s) \<le> 2 ^ 62" by (simp add: word_le_nat_alt)
  from k have u: "unat (N s) = 2 ^ k" by (simp add: unat_pow2)
  with le' have "(2::nat) ^ k \<le> 2 ^ 62" by simp
  then have "k \<le> 62" using power_le_imp_le_exp [of 2 k 62] by simp
  with u show "\<exists>k \<le> 62. unat (N s) = 2 ^ k" by blast
  from assms show "length (A s) = 2 * unat (N s)" by (simp add: shape_def)
qed

lemma Assign_keeps:
  assumes sh: "shape s" and ok: "internal_ok g s" and i: "i < N s"
  shows "\<exists>s'. Assign g s i x = Inr s' \<and> shape s' \<and> internal_ok g s' \<and>
      identity s' = identity s \<and> n s' = n s \<and> N s' = N s \<and>
      A s' ! (unat (N s) + unat i) = x \<and>
      (\<forall>k \<ge> unat (N s). k \<noteq> unat (N s) + unat i \<longrightarrow> A s' ! k = A s ! k) \<and>
      A s' ! 0 = A s ! 0"
proof -
  note su = shape_unat [OF sh]
  from i have i': "unat i < unat (N s)" by (simp add: word_less_nat_alt)
  from ok have ok': "\<forall>k \<in> {1..<unat (N s)}. A s ! k = g (A s ! (2 * k)) (A s ! (2 * k + 1))"
    by (simp add: internal_ok_def)
  from Assign_in_capacity [OF refl su(2,3) ok' i', of x] obtain xs' where xs':
    "Assign g s i x = Inr (s\<lparr>A := xs'\<rparr>)" "length xs' = 2 * unat (N s)"
    "\<forall>k \<in> {1..<unat (N s)}. xs' ! k = g (xs' ! (2 * k)) (xs' ! (2 * k + 1))"
    "xs' ! (unat (N s) + unat i) = x"
    "\<forall>k \<ge> unat (N s). k \<noteq> unat (N s) + unat i \<longrightarrow> xs' ! k = A s ! k"
    "xs' ! 0 = A s ! 0" by blast
  have "shape (s\<lparr>A := xs'\<rparr>)" using sh xs'(2) by (simp add: shape_def)
  moreover have "internal_ok g (s\<lparr>A := xs'\<rparr>)" using xs'(3) by (simp add: internal_ok_def)
  ultimately show ?thesis using xs'(1,4,5,6) by (intro exI [of _ "s\<lparr>A := xs'\<rparr>"]) simp
qed

text \<open>
  Up to \<open>2 ^ k\<close> the capacity is at most \<open>2 ^ k\<close>; up to \<open>2 ^ 62\<close> twice the capacity does not
  wrap.
\<close>

lemma SuperCeiling_below:
  assumes k: "k \<le> 63" and sz: "sz \<le> 2 ^ k"
  shows "\<exists>cap. SuperCeiling sz = Some cap \<and> is_pow2 cap \<and> sz \<le> cap \<and> cap \<le> 2 ^ k"
proof -
  have "(2::nat) ^ k \<le> 2 ^ 63" using k by (intro power_increasing) auto
  then have "(2 ^ k :: size_t) \<le> 2 ^ 63" using k by (simp add: word_le_nat_alt unat_pow2)
  with sz have "sz \<le> 2 ^ 63" by (rule order_trans)
  from SuperCeiling_least [OF this] obtain cap where cap: "SuperCeiling sz = Some cap"
    "is_pow2 cap" "sz \<le> cap" "\<forall>q. is_pow2 q \<and> sz \<le> q \<longrightarrow> cap \<le> q" by blast
  have "is_pow2 (2 ^ k)" using k unfolding is_pow2_def by (intro bexI [of _ k]) simp_all
  with cap(4) sz have "cap \<le> 2 ^ k" by blast
  with cap show ?thesis by blast
qed

lemma SuperCeiling_capacity:
  assumes "sz \<le> 2 ^ 62"
  shows "\<exists>cap. SuperCeiling sz = Some cap \<and> is_pow2 cap \<and> sz \<le> cap \<and> cap \<le> 2 ^ 62 \<and>
           unat (2 * cap) = 2 * unat cap"
proof -
  from SuperCeiling_below [of 62, OF _ assms] obtain cap where cap: "SuperCeiling sz = Some cap"
    "is_pow2 cap" "sz \<le> cap" "cap \<le> 2 ^ 62" by auto
  then have "unat cap < 2 ^ 63" by (simp add: word_le_nat_alt)
  then have "unat (LeftChild cap) = 2 * unat cap" by (rule unat_LeftChild)
  with cap show ?thesis by (simp add: LeftChild_def)
qed

text \<open>What the constructor of \<^verbatim>\<open>src/cpp/generic_segtree.cpp\<close> returns, when it returns.\<close>

lemma Segtree_Some:
  assumes "(Segtree mx sz :: (size_t, 'a::zero) SegTree option) = Some s"
  shows "SuperCeiling sz = Some (N s)" "n s = sz" "A s = replicate (unat (2 * N s)) 0"
    "identity s = 0" "unat (2 * N s) \<le> mx"
proof -
  from assms obtain cap where cap: "SuperCeiling sz = Some cap" "unat (2 * cap) \<le> mx"
    "s = \<lparr>identity = 0, n = sz, N = cap, A = replicate (unat (2 * cap)) 0\<rparr>"
    by (cases "SuperCeiling sz") (auto simp: Segtree_def split: if_splits)
  then show "SuperCeiling sz = Some (N s)" "n s = sz" "A s = replicate (unat (2 * N s)) 0"
    "identity s = 0" "unat (2 * N s) \<le> mx" by simp_all
qed

lemma Segtree_returns:
  assumes "SuperCeiling sz = Some cap" "unat (2 * cap) \<le> mx"
  shows "Segtree mx sz = Some \<lparr>identity = 0, n = sz, N = cap, A = replicate (unat (2 * cap)) 0\<rparr>"
  using assms by (simp add: Segtree_def)

lemma Segtree_built:
  assumes sz: "sz \<le> 2 ^ 62" and s: "(Segtree mx sz :: (size_t, 'a::zero) SegTree option) = Some s"
  shows "shape s" "A s = replicate (2 * unat (N s)) 0"
proof -
  note ss = Segtree_Some [OF s]
  from SuperCeiling_capacity [OF sz] ss(1) have cap: "is_pow2 (N s)" "sz \<le> N s"
    "N s \<le> 2 ^ 62" "unat (2 * N s) = 2 * unat (N s)" by auto
  with ss(3) show "A s = replicate (2 * unat (N s)) 0" by simp
  with cap ss(2) show "shape s" by (simp add: shape_def)
qed

text \<open>
  \<open>SegTreeInit\<close> of \<^verbatim>\<open>src/c/segtree.c\<close> overwrites all four fields: when its loop stays inside
  the block, it returns the tree that the constructor of \<^verbatim>\<open>src/cpp/generic_segtree.cpp\<close>
  returns for \<^verbatim>\<open>int\<close>. It does so for every logical size up to \<open>2 ^ 60\<close>; from there up to
  \<open>2 ^ 62\<close> the byte count wraps to 0 and the loop writes outside the block.
\<close>

lemma SegTreeInit_Inr:
  assumes "SegTreeInit c sz = Some (Inr s)"
  shows "Segtree (unat (2 * N s)) sz = Some s"
proof -
  from assms obtain cap where cap: "SuperCeiling sz = Some cap"
    "s = c\<lparr>n := sz, N := cap, A := replicate (unat (2 * cap)) 0, identity := 0\<rparr>"
    by (cases "SuperCeiling sz") (auto simp: SegTreeInit_def Let_def split: if_splits)
  from cap(2) have "s = \<lparr>identity = 0, n = sz, N = cap, A = replicate (unat (2 * cap)) 0\<rparr>"
    by (cases c) simp
  with cap(1) show ?thesis by (simp add: Segtree_def)
qed

lemma SegTreeInit_cap:
  assumes "SuperCeiling sz = Some cap"
  shows "cap \<le> 2 ^ 60 \<Longrightarrow>
      SegTreeInit c sz =
        Some (Inr (c\<lparr>n := sz, N := cap, A := replicate (unat (2 * cap)) 0, identity := 0\<rparr>))"
    and "cap = 2 ^ 61 \<or> cap = 2 ^ 62 \<Longrightarrow> SegTreeInit c sz = Some (Inl OutOfBounds)"
proof -
  assume le: "cap \<le> 2 ^ 60"
  then have u: "unat cap \<le> 2 ^ 60" by (simp add: word_le_nat_alt)
  then have "unat (2::size_t) * unat cap < 2 ^ LENGTH(64)" by simp
  then have "unat (2 * cap) = unat (2::size_t) * unat cap" by (simp only: unat_mult_lem)
  then have c2: "unat (2 * cap) = 2 * unat cap" by simp
  with u have "unat (4::size_t) * unat (2 * cap) < 2 ^ LENGTH(64)" by simp
  then have "unat (4 * (2 * cap)) = unat (4::size_t) * unat (2 * cap)" by (simp only: unat_mult_lem)
  then have "unat (4 * (2 * cap)) div 4 = unat (2 * cap)" by simp
  then show "SegTreeInit c sz =
        Some (Inr (c\<lparr>n := sz, N := cap, A := replicate (unat (2 * cap)) 0, identity := 0\<rparr>))"
    using assms by (simp add: SegTreeInit_def sizeof_int_def Let_def)
next
  assume "cap = 2 ^ 61 \<or> cap = 2 ^ 62"
  then show "SegTreeInit c sz = Some (Inl OutOfBounds)"
    using assms by (auto simp: SegTreeInit_def sizeof_int_def Let_def)
qed

lemma SegTreeInit_returns:
  assumes "sz \<le> 2 ^ 60"
  shows "\<exists>s. SegTreeInit c sz = Some (Inr s)"
proof -
  from SuperCeiling_below [of 60, OF _ assms] obtain cap where "SuperCeiling sz = Some cap"
    "cap \<le> 2 ^ 60" by auto
  from SegTreeInit_cap(1) [OF this] show ?thesis by blast
qed

lemma SegTreeInit_faults:
  assumes lo: "2 ^ 60 < sz" and hi: "sz \<le> 2 ^ 62"
  shows "SegTreeInit c sz = Some (Inl OutOfBounds)"
proof -
  from SuperCeiling_below [of 62, OF _ hi] obtain cap where cap: "SuperCeiling sz = Some cap"
    "is_pow2 cap" "sz \<le> cap" "cap \<le> 2 ^ 62" by auto
  from cap(2) obtain k where k: "k < 64" "cap = 2 ^ k" by (auto simp: is_pow2_def)
  from lo cap(3) have "2 ^ 60 < cap" by simp
  with k have "(2::nat) ^ 60 < 2 ^ k" by (simp add: word_less_nat_alt unat_pow2)
  then have "60 < k" using power_less_imp_less_exp [of 2 60 k] by simp
  moreover from cap(4) k have "(2::nat) ^ k \<le> 2 ^ 62" by (simp add: word_le_nat_alt unat_pow2)
  then have "k \<le> 62" using power_le_imp_le_exp [of 2 k 62] by simp
  ultimately have "k = 61 \<or> k = 62" by auto
  with k(2) have "cap = 2 ^ 61 \<or> cap = 2 ^ 62" by auto
  from SegTreeInit_cap(2) [OF cap(1) this] show ?thesis .
qed

lemma replicate_internal_ok:
  assumes "g e e = e" "length (A s) = 2 * unat (N s)" "A s = replicate (2 * unat (N s)) e"
  shows "internal_ok g s"
  unfolding internal_ok_def
proof
  fix i assume "i \<in> {1 ..< unat (N s)}"
  then have "i < 2 * unat (N s)" "2 * i < 2 * unat (N s)" "2 * i + 1 < 2 * unat (N s)" by simp_all
  then show "A s ! i = g (A s ! (2 * i)) (A s ! (2 * i + 1))"
    using assms(1) by (simp add: assms(3) del: replicate_add)
qed

lemma unat_of_nat_small: "k < 2 ^ 64 \<Longrightarrow> unat (of_nat k :: size_t) = k"
  by (simp add: unat_of_nat)

text \<open>
  A sequence of assignments below the capacity, from a tree whose leaves all hold \<open>e\<close>: every
  call completes, and each leaf holds the last value assigned to its position.
\<close>

lemma assigns_in_capacity:
  assumes sh: "shape s0" and ok: "internal_ok g s0"
    and init: "\<forall>k < unat (N s0). A s0 ! (unat (N s0) + k) = e"
  shows "\<forall>op \<in> set ops. fst op < N s0 \<Longrightarrow>
    \<exists>s. Assign_all g s0 ops = Inr s \<and> shape s \<and> internal_ok g s \<and>
      identity s = identity s0 \<and> n s = n s0 \<and> N s = N s0 \<and>
      (\<forall>k < unat (N s0). A s ! (unat (N s0) + k) = last_assigned e ops (of_nat k))"
proof (induction ops rule: rev_induct)
  case Nil
  then show ?case using sh ok init by (simp add: last_assigned_Nil)
next
  case (snoc op ops)
  obtain i x where op: "op = (i, x)" by (cases op)
  from snoc.prems have "\<forall>op \<in> set ops. fst op < N s0" by simp
  from snoc.IH [OF this] obtain s where s: "Assign_all g s0 ops = Inr s" "shape s"
    "internal_ok g s" "identity s = identity s0" "n s = n s0" "N s = N s0"
    "\<forall>k < unat (N s0). A s ! (unat (N s0) + k) = last_assigned e ops (of_nat k)" by blast
  from snoc.prems op s(6) have i: "i < N s" by simp
  from Assign_keeps [OF s(2,3) i, of x] obtain s' where s': "Assign g s i x = Inr s'"
    "shape s'" "internal_ok g s'" "identity s' = identity s" "n s' = n s" "N s' = N s"
    "A s' ! (unat (N s) + unat i) = x"
    "\<forall>k \<ge> unat (N s). k \<noteq> unat (N s) + unat i \<longrightarrow> A s' ! k = A s ! k" by blast
  have cap: "unat (N s0) \<le> 2 ^ 62" using shape_unat(2) [OF sh] .
  have "A s' ! (unat (N s0) + k) = last_assigned e (ops @ [op]) (of_nat k)"
    if k: "k < unat (N s0)" for k
  proof (cases "k = unat i")
    case True
    then have "of_nat k = i" by simp
    with s'(7) s(6) True show ?thesis by (simp add: op last_assigned_snoc)
  next
    case False
    from k cap have "unat (of_nat k :: size_t) = k" by (intro unat_of_nat_small) simp
    with False have "i \<noteq> of_nat k" by auto
    moreover from False s'(8) s(6) have "A s' ! (unat (N s0) + k) = A s ! (unat (N s0) + k)"
      by simp
    ultimately show ?thesis using s(7) k by (simp add: op last_assigned_snoc)
  qed
  moreover have "Assign_all g s0 (ops @ [op]) = Inr s'"
    using s(1) s'(1) by (simp add: op Assign_all_snoc)
  ultimately show ?case using s' s(4,5,6) by auto
qed

lemma RangeSum_value:
  assumes assoc: "\<And>a b c. g (g a b) c = g a (g b c)"
    and idl: "\<And>x. g (identity s) x = x" and idr: "\<And>x. g x (identity s) = x"
    and sh: "shape s" and ok: "internal_ok g s" and ij: "i \<le> j" "j < N s"
  shows "RangeSum g s i j =
    Some (Inr (fold_combine g e (leaves (A s) (unat (N s)) (unat i) (unat j + 1))))"
proof -
  note su = shape_unat [OF sh]
  from su(1) obtain k where k: "unat (N s) = 2 ^ k" by blast
  then have "unat (N s) \<noteq> 0" by simp
  then have "N s \<noteq> 0" by (simp add: unat_eq_zero)
  then have r: "unat (N s - 1) = unat (N s) - 1" by (rule unat_minus_one)
  from ok have ok': "\<forall>i \<in> {1..<unat (N s)}. A s ! i = g (A s ! (2 * i)) (A s ! (2 * i + 1))"
    by (simp add: internal_ok_def)
  have "f g s 1 0 (N s - 1) i j =
      Some (Inr (fold_combine g e (leaves (A s) (unat (N s)) (unat i) (unat j + 1))))"
  proof (rule f_value [OF assoc idl idr su(3,2) ok', where h = k])
    show "unat (1::size_t) * 2 ^ k = unat (N s) + unat (0::size_t)" using k by simp
    show "unat (N s - 1) + 1 = unat (0::size_t) + 2 ^ k" using r k by simp
    show "unat (N s - 1) < unat (N s)" using r k by simp
    show "unat (0::size_t) \<le> unat i" by simp
    show "unat i \<le> unat j" using ij(1) by (simp add: word_le_nat_alt)
    show "unat j \<le> unat (N s - 1)" using ij(2) r by (simp add: word_less_nat_alt)
  qed
  then show ?thesis by (simp add: RangeSum_def)
qed

lemma leaves_positions:
  assumes "\<forall>k < c. xs ! (c + k) = vals (of_nat k)" "unat j < c"
  shows "leaves xs c (unat i) (unat j + 1) = map vals (positions i j)"
  using assms by (auto simp: leaves_def positions_def)

section \<open>Queries outside the contract, and the states of the demonstration\<close>

text \<open>
  A reversed query \<open>j < i\<close> inside the block never reads the array: some split separates \<open>j\<close>
  from \<open>i\<close>, both halves are skipped there, and identities are combined on the way back.
\<close>

lemma f_empty:
  assumes ee: "g (identity s) (identity s) = identity s" and c: "c \<le> 2 ^ 62"
  shows "unat v * 2 ^ h = c + unat l \<Longrightarrow> unat r + 1 = unat l + 2 ^ h \<Longrightarrow> unat r < c \<Longrightarrow>
    unat l \<le> unat j \<Longrightarrow> unat j < unat i \<Longrightarrow> unat i \<le> unat r \<Longrightarrow>
    f g s v l r i j = Some (Inr (identity s))"
proof (induction h arbitrary: v l r)
  case 0
  then show ?case by simp
next
  case (Suc h)
  from Suc.prems(4,5,6) have ne: "\<not> (l = i \<and> r = j)" by auto
  define m where "m = (l + r) div 2"
  note sf = split_facts [OF Suc.prems(1,2,3) c, folded m_def]
  have callL: "f g s (LeftChild v) l m i (min_sz m j) = Some (Inr (identity s))" if "i \<le> m"
  proof -
    from that Suc.prems(5) have "min_sz m j = j"
      by (simp add: min_sz_def word_le_nat_alt word_less_nat_alt)
    moreover have "f g s (LeftChild v) l m i j = Some (Inr (identity s))"
    proof (rule Suc.IH)
      show "unat (LeftChild v) * 2 ^ h = c + unat l" by (rule sf(3))
      show "unat m + 1 = unat l + 2 ^ h" by (rule sf(1))
      show "unat m < c" using sf(5) Suc.prems(3) by simp
      show "unat l \<le> unat j" by (rule Suc.prems(4))
      show "unat j < unat i" by (rule Suc.prems(5))
      show "unat i \<le> unat m" using that by (simp add: word_le_nat_alt)
    qed
    ultimately show ?thesis by simp
  qed
  have callR: "f g s (RightChild v) (m + 1) r (max_sz i (m + 1)) j = Some (Inr (identity s))"
    if "m < j"
  proof -
    from that have mj: "unat (m + 1) \<le> unat j" using sf(1,2) by (simp add: word_less_nat_alt)
    with Suc.prems(5) have "max_sz i (m + 1) = i"
      by (simp add: max_sz_def word_less_nat_alt)
    moreover have "f g s (RightChild v) (m + 1) r i j = Some (Inr (identity s))"
    proof (rule Suc.IH)
      show "unat (RightChild v) * 2 ^ h = c + unat (m + 1)" using sf(2,4) by simp
      show "unat r + 1 = unat (m + 1) + 2 ^ h" using sf(2) Suc.prems(2) by simp
      show "unat r < c" by (rule Suc.prems(3))
      show "unat (m + 1) \<le> unat j" by (rule mj)
      show "unat j < unat i" by (rule Suc.prems(5))
      show "unat i \<le> unat r" by (rule Suc.prems(6))
    qed
    ultimately show ?thesis by simp
  qed
  have not_both: "\<not> (i \<le> m \<and> m < j)"
    using Suc.prems(5) by (auto simp: word_le_nat_alt word_less_nat_alt)
  show ?case
  proof (cases "i \<le> m")
    case True
    with not_both have "\<not> m < j" by simp
    with True callL ne show ?thesis by (simp add: f_split m_def [symmetric] Let_def ee)
  next
    case False
    then show ?thesis using callR ne
      by (cases "m < j") (simp_all add: f_split m_def [symmetric] Let_def ee)
  qed
qed

text \<open>
  A query for the single position just after the block, \<open>i = j = r + 1\<close>, never returns: the
  left half is skipped, the right call is on a block that ends at \<open>r\<close> again, and from the
  empty block \<open>[r + 1, r]\<close> on the call repeats itself.
\<close>

lemma f_beyond_capacity:
  assumes "f g s v l r i j = Some y"
  shows "\<not> (unat r + 1 = unat i \<and> i = j \<and> l \<le> i \<and> unat i < 2 ^ 63)"
  using assms
proof (rule f.raw_induct [rotated 1])
  fix f' :: "('a \<Rightarrow> 'a \<Rightarrow> 'a) \<Rightarrow> (size_t, 'a) SegTree \<Rightarrow> size_t \<Rightarrow> size_t \<Rightarrow> size_t \<Rightarrow> size_t \<Rightarrow> size_t
     \<Rightarrow> (fault + 'a) option"
    and g s v l r i j y
  assume IH: "\<And>g s v l r i j y. f' g s v l r i j = Some y \<Longrightarrow>
      \<not> (unat r + 1 = unat i \<and> i = j \<and> l \<le> i \<and> unat i < 2 ^ 63)"
    and eq: "(if l = i \<and> r = j then Some (read_A (A s) v)
      else
        let m = (l + r) div 2 in
        do { t1 \<leftarrow> (if i \<le> m then f' g s (LeftChild v) l m i (min_sz m j)
                    else Some (Inr (identity s)));
             (case t1 of
                Inl e \<Rightarrow> Some (Inl e)
              | Inr a \<Rightarrow>
                 do { t2 \<leftarrow> (if j > m then f' g s (RightChild v) (m + 1) r (max_sz i (m + 1)) j
                             else Some (Inr (identity s)));
                      (case t2 of
                         Inl e \<Rightarrow> Some (Inl e)
                       | Inr b \<Rightarrow> Some (Inr (g a b))) }) }) = Some y"
  show "\<not> (unat r + 1 = unat i \<and> i = j \<and> l \<le> i \<and> unat i < 2 ^ 63)"
  proof
    assume a: "unat r + 1 = unat i \<and> i = j \<and> l \<le> i \<and> unat i < 2 ^ 63"
    define m where "m = (l + r) div 2"
    from a have a1: "unat r + 1 = unat i" and a2: "i = j" and a3: "l \<le> i"
      and a4: "unat i < 2 ^ 63" by blast+
    from a1 a2 have ne: "\<not> (l = i \<and> r = j)" by auto
    from a3 have li: "unat l \<le> unat i" by (simp add: word_le_nat_alt)
    from a1 a4 li have "unat l + unat r < 2 ^ LENGTH(64)" by simp
    then have "unat (l + r) = unat l + unat r" by (simp only: unat_add_lem)
    then have um: "unat m = (unat l + unat r) div 2" by (simp add: m_def unat_div)
    with a1 li have mr: "unat m \<le> unat r" by linarith
    with a1 a4 have m1: "unat (m + 1) = unat m + 1" by (intro unat_Suc_word) simp
    from mr a1 a2 have im: "\<not> i \<le> m" "m < j"
      by (simp_all add: word_le_nat_alt word_less_nat_alt)
    have mx: "max_sz i (m + 1) = i"
    proof (cases "m + 1 < i")
      case True
      then show ?thesis by (simp add: max_sz_def)
    next
      case False
      then have "unat (m + 1) = unat i" using mr m1 a1 by (simp add: word_less_nat_alt)
      then have "m + 1 = i" by (simp only: word_unat_eq_iff)
      with False show ?thesis by (simp add: max_sz_def)
    qed
    have "f' g s (RightChild v) (m + 1) r i j \<noteq> None"
    proof
      assume "f' g s (RightChild v) (m + 1) r i j = None"
      with eq ne im mx show False by (simp add: m_def [symmetric] Let_def)
    qed
    then obtain t2 where t2: "f' g s (RightChild v) (m + 1) r i j = Some t2" by auto
    have "m + 1 \<le> i" using mr m1 a1 by (simp add: word_le_nat_alt)
    with IH [OF t2] a1 a2 a4 show False by blast
  qed
qed

lemma RangeSum_N_N_diverges:
  assumes "N s \<noteq> 0" "unat (N s) < 2 ^ 63"
  shows "RangeSum g s (N s) (N s) = None"
proof (cases "RangeSum g s (N s) (N s)")
  case (Some y)
  from assms(1) have "unat (N s - 1) = unat (N s) - 1" by (rule unat_minus_one)
  moreover from assms(1) have "unat (N s) \<noteq> 0" by (simp add: unat_eq_zero)
  ultimately have "unat (N s - 1) + 1 = unat (N s)" by simp
  with f_beyond_capacity [of g s 1 0 "N s - 1" "N s" "N s" y] Some assms(2) show ?thesis
    by (simp add: RangeSum_def)
qed simp

text \<open>The ancestor walk: \<open>k\<close> steps of \<open>Parent\<close> divide by \<open>2 ^ k\<close>.\<close>

lemma unat_Parent_funpow: "unat ((Parent ^^ k) w) = unat w div 2 ^ k"
  by (induction k) (simp_all add: unat_Parent div_mult2_eq [symmetric] mult.commute)

lemma Parent_reaches_0: "(Parent ^^ 64) w = 0"
proof -
  have "unat w < 2 ^ 64" using unsigned_less [of w, where 'a = nat] by simp
  then have "unat ((Parent ^^ 64) w) = 0" by (simp only: unat_Parent_funpow div_less)
  then show ?thesis by (simp only: unat_eq_zero)
qed

text \<open>The states of the demonstration are what the calls of \<^verbatim>\<open>main\<close> return.\<close>

lemma SuperCeiling_7: "SuperCeiling 7 = Some 8"
  by code_simp

lemma main_states:
  "SegTreeInit c 7 = Some (Inr main_init)"
  "Segtree 16 7 = Some main_init"
  "Assign_all glue main_init [(3, 7), (4, 1)] = Inr main_tree"
proof -
  have "(8 :: size_t) \<le> 2 ^ 60" by simp
  from SegTreeInit_cap(1) [OF SuperCeiling_7 this, of c]
  show "SegTreeInit c 7 = Some (Inr main_init)" by (cases c) (simp add: main_init_def)
  show "Segtree 16 7 = Some main_init"
    using Segtree_returns [OF SuperCeiling_7, of 16] by (simp add: main_init_def)
  show "Assign_all glue main_init [(3, 7), (4, 1)] = Inr main_tree" by code_simp
qed

lemma main_shape: "shape main_tree" "internal_ok glue main_tree" "shape main_init" "internal_ok glue main_init"
  by code_simp+

section \<open>Trees built by the constructors\<close>

text \<open>
  A tree the constructor has returned for a logical size up to \<open>2 ^ 62\<close>, followed by
  assignments below its capacity.
\<close>

lemma built_state:
  fixes g :: "'a::zero \<Rightarrow> 'a \<Rightarrow> 'a"
  assumes g00: "g 0 0 = 0" and sz: "sz \<le> 2 ^ 62" and s0: "Segtree mx sz = Some s0"
    and ops: "\<forall>op \<in> set ops. fst op < N s0"
  shows "\<exists>s. Assign_all g s0 ops = Inr s \<and> shape s \<and>
      internal_ok g s \<and> identity s = 0 \<and> n s = sz \<and> N s = N s0 \<and> sz \<le> N s0 \<and>
      (\<forall>k < unat (N s0). A s ! (unat (N s0) + k) = last_assigned 0 ops (of_nat k))"
proof -
  note ss = Segtree_Some [OF s0] and sb = Segtree_built [OF sz s0]
  have ok0: "internal_ok g s0"
    using g00 sb(2) by (intro replicate_internal_ok [where e = 0]) simp_all
  have init: "\<forall>k < unat (N s0). A s0 ! (unat (N s0) + k) = 0" by (simp add: sb(2))
  from assigns_in_capacity [OF sb(1) ok0 init ops] obtain s where s:
    "Assign_all g s0 ops = Inr s" "shape s" "internal_ok g s" "identity s = identity s0"
    "n s = n s0" "N s = N s0"
    "\<forall>k < unat (N s0). A s ! (unat (N s0) + k) = last_assigned 0 ops (of_nat k)" by blast
  from s(2) have "n s \<le> N s" by (simp add: shape_def)
  with s ss(2,4) show ?thesis by auto
qed

lemma last_assigned_unassigned:
  "k \<notin> fst ` set ops \<Longrightarrow> last_assigned e ops k = e"
proof -
  assume "k \<notin> fst ` set ops"
  then have "filter (\<lambda>op. fst op = k) ops = []" by (auto simp: filter_empty_conv)
  then show ?thesis by (simp add: last_assigned_def)
qed

text \<open>
  C1. A tree \<open>s0\<close> is built with logical size \<open>sz\<close>, for an operator \<open>g\<close> that is associative
  and has \<open>0\<close>, the identity element of the tree, as its identity; any sequence of assignments
  at positions below \<open>sz\<close> follows. Then for \<open>i \<le> j < sz\<close> the query returns the fold of \<open>g\<close>,
  nested to the right, over the current values at the positions \<open>i, \<dots>, j\<close>. That the
  constructor has returned \<open>s0\<close> is a hypothesis, and the logical size is one for which twice
  the capacity fits a \<^verbatim>\<open>size_t\<close>. For \<^verbatim>\<open>src/c/segtree.c\<close>, \<open>SegTreeInit_Inr\<close> says that a tree
  which \<open>SegTreeInit\<close> returns is such a tree, and \<open>g\<close> is \<open>glue\<close>.
\<close>

theorem RangeSum_is_fold:
  fixes g :: "'a::zero \<Rightarrow> 'a \<Rightarrow> 'a"
  assumes assoc: "\<And>a b c. g (g a b) c = g a (g b c)"
    and idl: "\<And>x. g 0 x = x" and idr: "\<And>x. g x 0 = x"
    and sz: "sz \<le> 2 ^ 62" and s0: "Segtree mx sz = Some s0"
    and ops: "\<forall>op \<in> set ops. fst op < sz"
    and ij: "i \<le> j" "j < sz"
  shows "\<exists>s. Assign_all g s0 ops = Inr s \<and>
    RangeSum g s i j =
      Some (Inr (fold_combine g 0 (map (last_assigned 0 ops) (positions i j))))"
proof -
  have g00: "g 0 0 = 0" by (rule idl)
  from Segtree_built(1) [OF sz s0] Segtree_Some(2) [OF s0] have cap: "sz \<le> N s0"
    by (simp add: shape_def)
  with ops have ops': "\<forall>op \<in> set ops. fst op < N s0" by auto
  from built_state [where g = g, OF g00 sz s0 ops'] obtain s where s:
    "Assign_all g s0 ops = Inr s" "shape s" "internal_ok g s"
    "identity s = 0" "N s = N s0"
    "\<forall>k < unat (N s0). A s ! (unat (N s0) + k) = last_assigned 0 ops (of_nat k)" by blast
  from ij(2) cap s(5) have j: "j < N s" by simp
  have "RangeSum g s i j =
      Some (Inr (fold_combine g 0 (leaves (A s) (unat (N s)) (unat i) (unat j + 1))))"
    using assoc idl idr s(2,3) ij(1) j by (intro RangeSum_value) (simp_all add: s(4))
  moreover have "leaves (A s) (unat (N s)) (unat i) (unat j + 1) =
      map (last_assigned 0 ops) (positions i j)"
    using s(6) j by (intro leaves_positions) (simp_all add: s(5) word_less_nat_alt)
  ultimately show ?thesis using s(1) by auto
qed

theorem RangeSum_is_fold_witness:
  "SegTreeInit \<lparr>identity = 1, n = 0, N = 0, A = []\<rparr> 7 = Some (Inr main_init) \<and>
   Segtree 16 7 = Some main_init \<and>
   (2::size_t) \<le> 6 \<and> (6::size_t) < 7 \<and> (7::size_t) \<le> 2 ^ 62 \<and>
   (\<exists>s. Assign_all glue main_init [(3, 7), (4, 1)] = Inr s \<and>
      RangeSum glue s 2 6 =
        Some (Inr (fold_combine glue 0 (map (last_assigned 0 [(3, 7), (4, 1)]) (positions 2 6)))) \<and>
      fold_combine glue 0 (map (last_assigned 0 [(3, 7), (4, 1)]) (positions 2 6)) = 8)"
proof -
  have v: "fold_combine glue 0 (map (last_assigned 0 [(3, 7), (4, 1)]) (positions 2 6)) = 8"
    by code_simp
  have "\<exists>s. Assign_all glue main_init [(3, 7), (4, 1)] = Inr s \<and>
      RangeSum glue s 2 6 =
        Some (Inr (fold_combine glue 0 (map (last_assigned 0 [(3, 7), (4, 1)]) (positions 2 6))))"
    by (rule RangeSum_is_fold [where sz = 7 and mx = 16, OF _ _ _ _ main_states(2)])
      (simp_all add: glue_def)
  with v main_states(1,2) show ?thesis by simp
qed

text \<open>
  C2. After the constructor and any sequence of assignments at positions below \<open>sz\<close>, every
  internal node is the combination of its two children, every leaf of a logical position
  holds the last value assigned to it (the identity if there was none), and every padding
  leaf holds the identity. The operator need only map two identities to the identity. That
  the constructor has returned \<open>s0\<close> is a hypothesis, as in C1.
\<close>

theorem invariants_after_valid_assigns:
  fixes g :: "'a::zero \<Rightarrow> 'a \<Rightarrow> 'a"
  assumes g00: "g 0 0 = 0" and sz: "sz \<le> 2 ^ 62" and s0: "Segtree mx sz = Some s0"
    and ops: "\<forall>op \<in> set ops. fst op < sz"
  shows "\<exists>s. Assign_all g s0 ops = Inr s \<and>
    n s = sz \<and> N s = N s0 \<and> identity s = 0 \<and> shape s \<and> internal_ok g s \<and>
    (\<forall>i \<in> {unat (N s) ..< unat (N s) + unat sz}.
        A s ! i = last_assigned 0 ops (of_nat (i - unat (N s)))) \<and>
    padding_ok s"
proof -
  define cap where "cap = N s0"
  from Segtree_built(1) [OF sz s0] Segtree_Some(2) [OF s0] have cap: "sz \<le> cap" "cap \<le> 2 ^ 62"
    by (simp_all add: shape_def cap_def)
  from ops cap(1) have ops': "\<forall>op \<in> set ops. fst op < N s0" by (auto simp: cap_def)
  from built_state [where g = g, OF g00 sz s0 ops'] obtain s where s:
    "Assign_all g s0 ops = Inr s" "shape s" "internal_ok g s"
    "identity s = 0" "n s = sz" "N s = cap"
    "\<forall>k < unat cap. A s ! (unat cap + k) = last_assigned 0 ops (of_nat k)"
    unfolding cap_def by blast
  from cap(1) have szc: "unat sz \<le> unat cap" by (simp add: word_le_nat_alt)
  from cap(2) have c62: "unat cap \<le> 2 ^ 62" by (simp add: word_le_nat_alt)
  have leaf: "A s ! i = last_assigned 0 ops (of_nat (i - unat cap))"
    if "i \<in> {unat cap ..< 2 * unat cap}" for i
  proof -
    from that have "i - unat cap < unat cap" "i = unat cap + (i - unat cap)" by auto
    with s(7) show ?thesis by metis
  qed
  have pad: "A s ! i = 0" if i: "i \<in> {unat cap + unat sz ..< 2 * unat cap}" for i
  proof -
    define k where "k = i - unat cap"
    from i c62 have k: "unat sz \<le> k" "k < 2 ^ 64" by (auto simp: k_def)
    then have "unat (of_nat k :: size_t) = k" by (intro unat_of_nat_small)
    with k(1) have "\<not> (of_nat k :: size_t) < sz" by (simp add: word_less_nat_alt)
    with ops have "(of_nat k :: size_t) \<notin> fst ` set ops" by auto
    then have "last_assigned 0 ops (of_nat k) = 0" by (rule last_assigned_unassigned)
    moreover from i have "i \<in> {unat cap ..< 2 * unat cap}" by simp
    ultimately show ?thesis using leaf [of i] by (simp add: k_def)
  qed
  have "\<forall>i \<in> {unat (N s) ..< unat (N s) + unat sz}.
        A s ! i = last_assigned 0 ops (of_nat (i - unat (N s)))"
    using leaf szc by (simp add: s(6))
  moreover have "padding_ok s" using pad by (simp add: padding_ok_def s(4,5,6))
  ultimately show ?thesis using s(1-6) by (auto simp: cap_def)
qed

theorem invariants_after_valid_assigns_witness:
  "SegTreeInit \<lparr>identity = 1, n = 0, N = 0, A = []\<rparr> 7 = Some (Inr main_init) \<and>
   Segtree 16 7 = Some main_init \<and>
   (7::size_t) \<le> 2 ^ 62 \<and> (3::size_t) < 7 \<and> (4::size_t) < 7 \<and>
   (\<exists>s. Assign_all glue main_init [(3, 7), (4, 1)] = Inr s \<and>
      n s = 7 \<and> N s = N main_init \<and> identity s = 0 \<and> shape s \<and> internal_ok glue s \<and>
      (\<forall>i \<in> {unat (N s) ..< unat (N s) + unat (7::size_t)}.
          A s ! i = last_assigned 0 [(3, 7), (4, 1)] (of_nat (i - unat (N s)))) \<and>
      padding_ok s)"
proof -
  have "\<exists>s. Assign_all glue main_init [(3, 7), (4, 1)] = Inr s \<and>
      n s = 7 \<and> N s = N main_init \<and> identity s = 0 \<and> shape s \<and> internal_ok glue s \<and>
      (\<forall>i \<in> {unat (N s) ..< unat (N s) + unat (7::size_t)}.
          A s ! i = last_assigned 0 [(3, 7), (4, 1)] (of_nat (i - unat (N s)))) \<and>
      padding_ok s"
    by (rule invariants_after_valid_assigns [where sz = 7 and mx = 16, OF _ _ main_states(2)])
      (simp_all add: glue_def)
  with main_states(1,2) show ?thesis by simp
qed

text \<open>
  C9. The query takes a range that reaches into the padding: for \<open>i \<le> j \<le> N - 1\<close> it returns,
  without a fault, the fold of \<open>g\<close> over the leaves of the positions \<open>i, \<dots>, j\<close>, and the
  leaves of the positions from \<open>sz\<close> on hold the identity when the assignments were all below
  \<open>sz\<close>. The demonstration calls \<^verbatim>\<open>RangeSum(2,7)\<close> on a tree of logical size 7.
\<close>

theorem RangeSum_into_padding:
  fixes g :: "'a::zero \<Rightarrow> 'a \<Rightarrow> 'a"
  assumes assoc: "\<And>a b c. g (g a b) c = g a (g b c)"
    and idl: "\<And>x. g 0 x = x" and idr: "\<And>x. g x 0 = x"
    and sz: "sz \<le> 2 ^ 62" and ops: "\<forall>op \<in> set ops. fst op < sz"
    and s0: "Segtree mx sz = Some s0"
    and ij: "i \<le> j" "j \<le> N s0 - 1"
  shows "\<exists>s. Assign_all g s0 ops = Inr s \<and>
    RangeSum g s i j =
      Some (Inr (fold_combine g 0 (map (\<lambda>k. A s ! (unat (N s) + unat k)) (positions i j)))) \<and>
    (\<forall>k \<in> set (positions i j). sz \<le> k \<longrightarrow> A s ! (unat (N s) + unat k) = 0)"
proof -
  define cap where "cap = N s0"
  from Segtree_built(1) [OF sz s0] Segtree_Some(2) [OF s0] have cap: "is_pow2 cap" "sz \<le> cap"
    "cap \<le> 2 ^ 62" by (simp_all add: shape_def cap_def)
  from ops cap(2) have ops': "\<forall>op \<in> set ops. fst op < N s0" by (auto simp: cap_def)
  have g00: "g 0 0 = 0" by (rule idl)
  from built_state [where g = g, OF g00 sz s0 ops'] obtain s where s:
    "Assign_all g s0 ops = Inr s" "shape s" "internal_ok g s"
    "identity s = 0" "N s = cap"
    "\<forall>k < unat cap. A s ! (unat cap + k) = last_assigned 0 ops (of_nat k)"
    unfolding cap_def by blast
  from cap(1) have "cap \<noteq> 0" by (auto simp: is_pow2_def)
  then have "unat (cap - 1) = unat cap - 1" "unat cap \<noteq> 0"
    by (simp_all add: unat_minus_one unat_eq_zero)
  with ij(2) have j: "unat j < unat cap" by (simp add: word_le_nat_alt cap_def)
  from cap(3) have c62: "unat cap \<le> 2 ^ 62" by (simp add: word_le_nat_alt)
  have small: "unat (of_nat k :: size_t) = k" if "k \<le> unat j" for k
    using that j c62 by (intro unat_of_nat_small) simp
  have "RangeSum g s i j =
      Some (Inr (fold_combine g 0 (leaves (A s) (unat (N s)) (unat i) (unat j + 1))))"
    using assoc idl idr s(2,3) ij(1) j
    by (intro RangeSum_value) (simp_all add: s(4,5) word_less_nat_alt)
  moreover have "leaves (A s) (unat (N s)) (unat i) (unat j + 1) =
      map (\<lambda>k. A s ! (unat (N s) + unat k)) (positions i j)"
    using small by (auto simp: leaves_def positions_def)
  moreover have "A s ! (unat (N s) + unat k) = 0" if k: "k \<in> set (positions i j)" "sz \<le> k" for k
  proof -
    from k(1) obtain k' where k': "k = of_nat k'" "k' \<le> unat j" by (auto simp: positions_def)
    with small have uk: "unat k = k'" by simp
    from k(2) ops have "k \<notin> fst ` set ops" by auto
    then have "last_assigned 0 ops k = 0" by (rule last_assigned_unassigned)
    moreover from uk k'(2) j s(6) have "A s ! (unat cap + k') = last_assigned 0 ops (of_nat k')"
      by simp
    ultimately show ?thesis using uk k'(1) by (simp add: s(5))
  qed
  ultimately show ?thesis using s(1) by auto
qed

theorem RangeSum_into_padding_witness:
  "Segtree 16 7 = Some main_init \<and> (7::size_t) \<le> 2 ^ 62 \<and> (2::size_t) \<le> 7 \<and>
   7 \<le> N main_init - 1 \<and>
   (\<exists>s. Assign_all glue main_init [(3, 7), (4, 1)] = Inr s \<and>
      RangeSum glue s 2 7 =
        Some (Inr (fold_combine glue 0 (map (\<lambda>k. A s ! (unat (N s) + unat k)) (positions 2 7)))) \<and>
      (\<forall>k \<in> set (positions 2 7). 7 \<le> k \<longrightarrow> A s ! (unat (N s) + unat k) = 0)) \<and>
   RangeSum glue main_tree 2 7 = Some (Inr 8)"
proof -
  have a: "7 \<le> N main_init - 1" by (simp add: main_init_def)
  have "\<exists>s. Assign_all glue main_init [(3, 7), (4, 1)] = Inr s \<and>
      RangeSum glue s 2 7 =
        Some (Inr (fold_combine glue 0 (map (\<lambda>k. A s ! (unat (N s) + unat k)) (positions 2 7)))) \<and>
      (\<forall>k \<in> set (positions 2 7). 7 \<le> k \<longrightarrow> A s ! (unat (N s) + unat k) = 0)"
    by (rule RangeSum_into_padding [where sz = 7 and mx = 16, OF _ _ _ _ _ main_states(2) _ a])
      (simp_all add: glue_def)
  moreover have "RangeSum glue main_tree 2 7 = Some (Inr 8)" by code_simp
  ultimately show ?thesis using main_states(2) a by simp
qed

section \<open>Construction, indices outside the contract, the demonstration\<close>

lemma Segtree_nowrap:
  assumes "(Segtree mx sz :: (size_t, 'a::zero) SegTree option) = Some s" "sz \<le> 2 ^ 62"
  shows "length (A s) = 2 * unat (N s)"
  using Segtree_built(2) [OF assms(2,1)] by simp

lemma Segtree_slots:
  assumes "(Segtree mx sz :: (size_t, 'a::zero) SegTree option) = Some s"
  shows "length (A s) = unat (2 * N s)" "\<forall>x \<in> set (A s). x = identity s" "length (A s) \<le> mx"
  using Segtree_Some(3,4,5) [OF assms] by simp_all

text \<open>
  C6. Whenever a constructor returns, the capacity \<open>N\<close> is \<open>SuperCeiling\<close> of the logical size,
  the array has \<open>2 * N\<close> slots, \<open>2 * N\<close> as the code computes it in \<^verbatim>\<open>size_t\<close>, every slot holds
  the identity, and the identity is 0; for a logical size up to \<open>2 ^ 62\<close> the product \<open>2 * N\<close>
  does not wrap. \<open>SegTreeInit\<close>, the constructor of \<^verbatim>\<open>src/c/segtree.c\<close>, returns for every
  logical size up to \<open>2 ^ 60\<close>; from there up to \<open>2 ^ 62\<close> the byte count
  \<^verbatim>\<open>sizeof(int) * (2*s->N)\<close> wraps to 0 and the zeroing loop writes outside the block.
  \<open>Segtree\<close>, the constructor of \<^verbatim>\<open>src/cpp/generic_segtree.cpp\<close>, returns when \<open>2 * N\<close> is
  within \<^verbatim>\<open>max_size()\<close>, and leaves by an exception when it is not.
\<close>

theorem construction:
  fixes s :: "(size_t, c_int) SegTree" and t :: "(size_t, 'a::zero) SegTree"
  shows "(SegTreeInit c sz = Some (Inr s) \<longrightarrow>
            SuperCeiling sz = Some (N s) \<and> n s = sz \<and> length (A s) = unat (2 * N s) \<and>
            (\<forall>x \<in> set (A s). x = identity s) \<and> identity s = 0 \<and>
            (sz \<le> 2 ^ 62 \<longrightarrow> length (A s) = 2 * unat (N s))) \<and>
         (Segtree mx sz = Some t \<longrightarrow>
            SuperCeiling sz = Some (N t) \<and> n t = sz \<and> length (A t) = unat (2 * N t) \<and>
            (\<forall>x \<in> set (A t). x = identity t) \<and> identity t = 0 \<and> length (A t) \<le> mx \<and>
            (sz \<le> 2 ^ 62 \<longrightarrow> length (A t) = 2 * unat (N t))) \<and>
         (sz \<le> 2 ^ 60 \<longrightarrow> (\<exists>s'. SegTreeInit c sz = Some (Inr s'))) \<and>
         (2 ^ 60 < sz \<and> sz \<le> 2 ^ 62 \<longrightarrow> SegTreeInit c sz = Some (Inl OutOfBounds)) \<and>
         (\<forall>cap. SuperCeiling sz = Some cap \<longrightarrow>
            (if unat (2 * cap) \<le> mx
             then \<exists>t' :: (size_t, 'a) SegTree. Segtree mx sz = Some t'
             else (Segtree mx sz :: (size_t, 'a) SegTree option) = None))"
proof -
  have c1: "SuperCeiling sz = Some (N s) \<and> n s = sz \<and> length (A s) = unat (2 * N s) \<and>
      (\<forall>x \<in> set (A s). x = identity s) \<and> identity s = 0 \<and>
      (sz \<le> 2 ^ 62 \<longrightarrow> length (A s) = 2 * unat (N s))"
    if a: "SegTreeInit c sz = Some (Inr s)"
  proof -
    note b = SegTreeInit_Inr [OF a]
    from Segtree_Some [OF b] Segtree_slots [OF b] Segtree_nowrap [OF b] show ?thesis by simp
  qed
  have c2: "SuperCeiling sz = Some (N t) \<and> n t = sz \<and> length (A t) = unat (2 * N t) \<and>
      (\<forall>x \<in> set (A t). x = identity t) \<and> identity t = 0 \<and> length (A t) \<le> mx \<and>
      (sz \<le> 2 ^ 62 \<longrightarrow> length (A t) = 2 * unat (N t))"
    if b: "Segtree mx sz = Some t"
    using Segtree_Some [OF b] Segtree_slots [OF b] Segtree_nowrap [OF b] by simp
  have c3: "\<exists>s'. SegTreeInit c sz = Some (Inr s')" if "sz \<le> 2 ^ 60"
    using that by (rule SegTreeInit_returns)
  have c4: "SegTreeInit c sz = Some (Inl OutOfBounds)" if "2 ^ 60 < sz \<and> sz \<le> 2 ^ 62"
    using that by (intro SegTreeInit_faults) simp_all
  have c5: "if unat (2 * cap) \<le> mx
      then \<exists>t' :: (size_t, 'a) SegTree. Segtree mx sz = Some t'
      else (Segtree mx sz :: (size_t, 'a) SegTree option) = None"
    if "SuperCeiling sz = Some cap" for cap
    using that by (simp add: Segtree_def)
  from c1 c2 c3 c4 c5 show ?thesis by blast
qed

theorem construction_witness:
  "SegTreeInit main_tree 7 = Some (Inr main_init) \<and> Segtree 16 7 = Some main_init \<and>
   (7::size_t) \<le> 2 ^ 60 \<and> (7::size_t) \<le> 2 ^ 62 \<and>
   SuperCeiling 7 = Some (N main_init) \<and> unat (2 * N main_init) \<le> 16 \<and> n main_init = 7 \<and>
   length (A main_init) = unat (2 * N main_init) \<and> set (A main_init) = {identity main_init} \<and>
   identity main_init = 0 \<and> length (A main_init) = 2 * unat (N main_init) \<and>
   (Segtree 15 7 :: (size_t, c_int) SegTree option) = None"
proof -
  note a = main_states(1) [of main_tree] main_states(2)
  have b: "(7::size_t) \<le> 2 ^ 60" "(7::size_t) \<le> 2 ^ 62" by simp_all
  have c: "set (A main_init) = {identity main_init}" "unat (2 * N main_init) \<le> 16"
    by (simp_all add: main_init_def)
  from construction [of main_tree 7 main_init 15 main_init] SuperCeiling_7
  have "(Segtree 15 7 :: (size_t, c_int) SegTree option) = None" by simp
  with construction [of main_tree 7 main_init 16 main_init] a b c show ?thesis by simp
qed

text \<open>
  C4, as the code has it. On a tree that satisfies the invariants, \<open>Assign\<close> at an index below
  the logical size completes and keeps every invariant; it changes the leaf of that index and
  internal nodes only: every other leaf and the unused slot 0 keep their values, and so do
  \<open>n\<close>, \<open>N\<close> and \<open>identity\<close>. The query takes the
  tree and returns a value: it has no tree to change.
\<close>
theorem Assign_valid_index_keeps_invariants:
  assumes sh: "shape s" and ok: "internal_ok g s" and pad: "padding_ok s" and i: "i < n s"
  shows "\<exists>s'. Assign g s i x = Inr s' \<and> shape s' \<and> internal_ok g s' \<and> padding_ok s' \<and>
    identity s' = identity s \<and> n s' = n s \<and> N s' = N s \<and>
    A s' ! (unat (N s) + unat i) = x \<and>
    (\<forall>k \<in> {unat (N s) ..< 2 * unat (N s)}. k \<noteq> unat (N s) + unat i \<longrightarrow> A s' ! k = A s ! k) \<and>
    A s' ! 0 = A s ! 0 \<and> length (A s') = length (A s)"
proof -
  from sh have "n s \<le> N s" by (simp add: shape_def)
  with i have iN: "i < N s" by simp
  from Assign_keeps [OF sh ok iN, of x] obtain s' where s': "Assign g s i x = Inr s'"
    "shape s'" "internal_ok g s'" "identity s' = identity s" "n s' = n s" "N s' = N s"
    "A s' ! (unat (N s) + unat i) = x"
    "\<forall>k \<ge> unat (N s). k \<noteq> unat (N s) + unat i \<longrightarrow> A s' ! k = A s ! k"
    "A s' ! 0 = A s ! 0" by blast
  from sh s'(2,6) have len: "length (A s') = length (A s)" by (simp add: shape_def)
  from i have "unat i < unat (n s)" by (simp add: word_less_nat_alt)
  with pad s'(8) have "padding_ok s'" by (simp add: padding_ok_def s'(4,5,6))
  with s' len show ?thesis by auto
qed

theorem Assign_valid_index_keeps_invariants_witness:
  "shape main_init \<and> internal_ok glue main_init \<and> padding_ok main_init \<and> 3 < n main_init \<and>
   (\<exists>s'. Assign glue main_init 3 7 = Inr s' \<and> shape s' \<and> internal_ok glue s' \<and> padding_ok s' \<and>
      identity s' = identity main_init \<and> n s' = n main_init \<and> N s' = N main_init \<and>
      A s' ! (unat (N main_init) + unat (3::size_t)) = 7 \<and>
      (\<forall>k \<in> {unat (N main_init) ..< 2 * unat (N main_init)}.
          k \<noteq> unat (N main_init) + unat (3::size_t) \<longrightarrow> A s' ! k = A main_init ! k) \<and>
      A s' ! 0 = A main_init ! 0 \<and> length (A s') = length (A main_init))"
proof -
  have p: "padding_ok main_init" by code_simp
  have i: "3 < n main_init" by (simp add: main_init_def)
  from Assign_valid_index_keeps_invariants [OF main_shape(3,4) p i, of 7] main_shape(3,4) p i
  show ?thesis by simp
qed

text \<open>
  C4, as the spec states it, fails at the index 7 of the fresh tree of logical size 7:
  \<open>Assign\<close> completes, and the padding leaf 15 no longer holds the identity.
\<close>

theorem Assign_index_n_overwrites_padding:
  "SegTreeInit \<lparr>identity = 1, n = 0, N = 0, A = []\<rparr> 7 = Some (Inr main_init) \<and>
   Segtree 16 7 = Some main_init \<and> padding_ok main_init \<and>
   Assign glue main_init 7 5 =
     Inr (main_init\<lparr>A := [0, 5, 0, 5, 0, 0, 0, 5, 0, 0, 0, 0, 0, 0, 0, 5]\<rparr>) \<and>
   \<not> padding_ok (main_init\<lparr>A := [0, 5, 0, 5, 0, 0, 0, 5, 0, 0, 0, 0, 0, 0, 0, 5]\<rparr>)"
proof -
  have "padding_ok main_init"
    "Assign glue main_init 7 5 =
       Inr (main_init\<lparr>A := [0, 5, 0, 5, 0, 0, 0, 5, 0, 0, 0, 0, 0, 0, 0, 5]\<rparr>)"
    "\<not> padding_ok (main_init\<lparr>A := [0, 5, 0, 5, 0, 0, 0, 5, 0, 0, 0, 0, 0, 0, 0, 5]\<rparr>)"
    by code_simp+
  with main_states(1,2) show ?thesis by simp
qed

text \<open>
  C3, as the code has it. Neither operation checks an index, and no error is signalled. On a
  tree that satisfies the invariants, \<open>Assign\<close> at any index below the capacity, also one from
  the logical size on, completes and stores the value in the leaf of that index; the query
  for any \<open>i \<le> j\<close> below the capacity, also with \<open>j\<close> from the logical size on, completes with
  a value; and the query for a reversed pair \<open>q < p\<close> below the capacity returns the identity.
\<close>
theorem no_index_check:
  assumes sh: "shape s" and ok: "internal_ok g s"
    and ee: "g (identity s) (identity s) = identity s"
  shows "(a < N s \<longrightarrow> (\<exists>s'. Assign g s a x = Inr s' \<and> A s' ! (unat (N s) + unat a) = x)) \<and>
         (i \<le> j \<and> j < N s \<longrightarrow> (\<exists>y. RangeSum g s i j = Some (Inr y))) \<and>
         (q < p \<and> p < N s \<longrightarrow> RangeSum g s p q = Some (Inr (identity s)))"
proof (intro conjI impI)
  assume "a < N s"
  from Assign_keeps [OF sh ok this, of x]
  show "\<exists>s'. Assign g s a x = Inr s' \<and> A s' ! (unat (N s) + unat a) = x" by blast
next
  note su = shape_unat [OF sh]
  from su(1) obtain k where k: "unat (N s) = 2 ^ k" by blast
  then have "unat (N s) \<noteq> 0" by simp
  then have "N s \<noteq> 0" by (simp add: unat_eq_zero)
  then have r: "unat (N s - 1) = unat (N s) - 1" by (rule unat_minus_one)
  {
    assume ij: "i \<le> j \<and> j < N s"
    have "\<exists>y. f g s 1 0 (N s - 1) i j = Some (Inr y)"
    proof (rule f_returns [OF su(3,2), where h = k])
      show "unat (1::size_t) * 2 ^ k = unat (N s) + unat (0::size_t)" using k by simp
      show "unat (N s - 1) + 1 = unat (0::size_t) + 2 ^ k" using r k by simp
      show "unat (N s - 1) < unat (N s)" using r k by simp
      show "unat (0::size_t) \<le> unat i" "unat (0::size_t) \<le> unat j" by simp_all
      show "unat j \<le> unat (N s - 1)" using ij r by (auto simp: word_less_nat_alt)
      then show "unat i \<le> unat (N s - 1)" using ij by (auto simp: word_le_nat_alt)
    qed
    then show "\<exists>y. RangeSum g s i j = Some (Inr y)" by (simp add: RangeSum_def)
  }
  {
    assume pq: "q < p \<and> p < N s"
    have "f g s 1 0 (N s - 1) p q = Some (Inr (identity s))"
    proof (rule f_empty [where g = g and s = s and h = k, OF ee su(2)])
      show "unat (1::size_t) * 2 ^ k = unat (N s) + unat (0::size_t)" using k by simp
      show "unat (N s - 1) + 1 = unat (0::size_t) + 2 ^ k" using r k by simp
      show "unat (N s - 1) < unat (N s)" using r k by simp
      show "unat (0::size_t) \<le> unat q" by simp
      show "unat q < unat p" using pq by (auto simp: word_less_nat_alt)
      show "unat p \<le> unat (N s - 1)" using pq r by (auto simp: word_less_nat_alt)
    qed
    then show "RangeSum g s p q = Some (Inr (identity s))" by (simp add: RangeSum_def)
  }
qed

theorem no_index_check_witness:
  "shape main_tree \<and> internal_ok glue main_tree \<and>
   glue (identity main_tree) (identity main_tree) = identity main_tree \<and>
   7 < N main_tree \<and> (2::size_t) \<le> 7 \<and> (2::size_t) < 5 \<and> 5 < N main_tree \<and>
   (\<exists>s'. Assign glue main_tree 7 5 = Inr s' \<and> A s' ! (unat (N main_tree) + unat (7::size_t)) = 5) \<and>
   (\<exists>y. RangeSum glue main_tree 2 7 = Some (Inr y)) \<and>
   RangeSum glue main_tree 5 2 = Some (Inr (identity main_tree))"
proof -
  have ee: "glue (identity main_tree) (identity main_tree) = identity main_tree"
    by (simp add: glue_def main_tree_def)
  have b: "7 < N main_tree" "5 < N main_tree" by (simp_all add: main_tree_def)
  from no_index_check [OF main_shape(1,2) ee, of 7 5 2 7 2 5] main_shape(1,2) ee b
  show ?thesis by simp
qed

text \<open>
  C3, as the spec states it, fails on the tree of the demonstration, of logical size 7:
  \<open>Assign\<close> at index 7 completes and writes leaf 15, the query for \<open>(2, 7)\<close> returns 8 and the
  query for \<open>(5, 2)\<close> returns 0.
\<close>

theorem out_of_range_is_not_signalled:
  "SegTreeInit \<lparr>identity = 1, n = 0, N = 0, A = []\<rparr> 7 = Some (Inr main_init) \<and>
   Segtree 16 7 = Some main_init \<and> Assign_all glue main_init [(3, 7), (4, 1)] = Inr main_tree \<and>
   n main_tree = 7 \<and>
   Assign glue main_tree 7 5 =
     Inr (main_tree\<lparr>A := [0, 13, 7, 6, 0, 7, 1, 5, 0, 0, 0, 7, 1, 0, 0, 5]\<rparr>) \<and>
   RangeSum glue main_tree 2 7 = Some (Inr 8) \<and>
   RangeSum glue main_tree 5 2 = Some (Inr 0)"
proof -
  have "n main_tree = 7"
    "Assign glue main_tree 7 5 =
       Inr (main_tree\<lparr>A := [0, 13, 7, 6, 0, 7, 1, 5, 0, 0, 0, 7, 1, 0, 0, 5]\<rparr>)"
    "RangeSum glue main_tree 2 7 = Some (Inr 8)"
    "RangeSum glue main_tree 5 2 = Some (Inr 0)"
    by code_simp+
  with main_states show ?thesis by simp
qed

text \<open>
  C5. The demonstration: a tree of logical size 7, \<^verbatim>\<open>Assign(3, 7)\<close>, \<^verbatim>\<open>Assign(4, 1)\<close>; then
  \<^verbatim>\<open>RangeSum(2,7)\<close> is 8, \<^verbatim>\<open>RangeSum(0,3)\<close> is 7, \<^verbatim>\<open>RangeSum(4,5)\<close> is 1 and
  \<^verbatim>\<open>RangeSum(5,5)\<close> is 0. First \<^verbatim>\<open>main\<close> of \<^verbatim>\<open>src/c/segtree.c\<close>, from any struct \<open>c\<close>; then
  \<^verbatim>\<open>main\<close> of \<^verbatim>\<open>src/segtree.cpp\<close>.
\<close>
theorem main_prints:
  "(\<exists>s1 s2 s3. SegTreeInit c 7 = Some (Inr s1) \<and> Assign glue s1 3 7 = Inr s2 \<and>
      Assign glue s2 4 1 = Inr s3 \<and>
      RangeSum glue s3 2 7 = Some (Inr 8) \<and> RangeSum glue s3 0 3 = Some (Inr 7) \<and>
      RangeSum glue s3 4 5 = Some (Inr 1) \<and> RangeSum glue s3 5 5 = Some (Inr 0)) \<and>
   (\<exists>t1 t2 t3. Segtree_int 7 = Some t1 \<and> Assign_int t1 3 7 = Inr t2 \<and>
      Assign_int t2 4 1 = Inr t3 \<and>
      RangeSum_int t3 2 7 = Some (Inr 8) \<and> RangeSum_int t3 0 3 = Some (Inr 7) \<and>
      RangeSum_int t3 4 5 = Some (Inr 1) \<and> RangeSum_int t3 5 5 = Some (Inr 0))"
proof -
  have "Assign glue main_init 3 7 =
      Inr (main_init\<lparr>A := [0, 7, 7, 0, 0, 7, 0, 0, 0, 0, 0, 7, 0, 0, 0, 0]\<rparr>)"
    "Assign glue (main_init\<lparr>A := [0, 7, 7, 0, 0, 7, 0, 0, 0, 0, 0, 7, 0, 0, 0, 0]\<rparr>) 4 1 =
      Inr main_tree"
    "RangeSum glue main_tree 2 7 = Some (Inr 8)" "RangeSum glue main_tree 0 3 = Some (Inr 7)"
    "RangeSum glue main_tree 4 5 = Some (Inr 1)" "RangeSum glue main_tree 5 5 = Some (Inr 0)"
    by code_simp+
  then have size_t: "\<exists>s1 s2 s3. SegTreeInit c 7 = Some (Inr s1) \<and> Assign glue s1 3 7 = Inr s2 \<and>
      Assign glue s2 4 1 = Inr s3 \<and>
      RangeSum glue s3 2 7 = Some (Inr 8) \<and> RangeSum glue s3 0 3 = Some (Inr 7) \<and>
      RangeSum glue s3 4 5 = Some (Inr 1) \<and> RangeSum glue s3 5 5 = Some (Inr 0)"
    using main_states(1) [of c] by simp
  define t1 :: "(c_int, c_int) SegTree" where
    "t1 = \<lparr>identity = 0, n = 7, N = 8, A = replicate 16 0\<rparr>"
  define t2 :: "(c_int, c_int) SegTree" where
    "t2 = \<lparr>identity = 0, n = 7, N = 8, A = [0, 7, 7, 0, 0, 7, 0, 0, 0, 0, 0, 7, 0, 0, 0, 0]\<rparr>"
  define t3 :: "(c_int, c_int) SegTree" where
    "t3 = \<lparr>identity = 0, n = 7, N = 8, A = [0, 8, 7, 1, 0, 7, 1, 0, 0, 0, 0, 7, 1, 0, 0, 0]\<rparr>"
  have "Segtree_int 7 = Some t1" "Assign_int t1 3 7 = Inr t2" "Assign_int t2 4 1 = Inr t3"
    "RangeSum_int t3 2 7 = Some (Inr 8)" "RangeSum_int t3 0 3 = Some (Inr 7)"
    "RangeSum_int t3 4 5 = Some (Inr 1)" "RangeSum_int t3 5 5 = Some (Inr 0)"
    unfolding t1_def t2_def t3_def by code_simp+
  with size_t show ?thesis by blast
qed

section \<open>The \<^verbatim>\<open>int\<close> variant whose constructor leaves the identity unset\<close>

lemma SegTreeInit_int_7:
  "SegTreeInit_int c 7 = Some (c\<lparr>n := 7, N := 8, A := replicate 16 0\<rparr>)"
  by (simp add: SegTreeInit_int_def SuperCeiling_int_def SuperCeiling_int_loop.simps
      word_sless_alt)

lemma SegTreeInit_int_identity:
  "map_option identity (SegTreeInit_int c sz) = map_option (\<lambda>_. identity c) (SegTreeInit_int c sz)"
  by (cases "SuperCeiling_int sz") (simp_all add: SegTreeInit_int_def)

lemma replicate_16: "replicate 16 (0::c_int) = [0, 0, 0, 0, 0, 0, 0, 0, 0, 0, 0, 0, 0, 0, 0, 0]"
  by code_simp

lemma main_int_assigns:
  "Assign_int \<lparr>identity = e, n = 7, N = 8, A = replicate 16 0\<rparr> 3 7 =
     Inr \<lparr>identity = e, n = 7, N = 8, A = [0, 7, 7, 0, 0, 7, 0, 0, 0, 0, 0, 7, 0, 0, 0, 0]\<rparr>"
  "Assign_int \<lparr>identity = e, n = 7, N = 8, A = [0, 7, 7, 0, 0, 7, 0, 0, 0, 0, 0, 7, 0, 0, 0, 0]\<rparr> 4 1 =
     Inr \<lparr>identity = e, n = 7, N = 8, A = [0, 8, 7, 1, 0, 7, 1, 0, 0, 0, 0, 7, 1, 0, 0, 0]\<rparr>"
  by (simp_all add: Assign_int_def Assign_int_loop.simps read_A_int_def write_A_int_def
      Parent_int_def LeftChild_int_def RightChild_int_def div_int_def glue_def word_sless_alt
      signed_divide_int_def Let_def replicate_16)

lemma main_int_queries:
  fixes e :: c_int
  defines "t \<equiv> \<lparr>identity = e, n = 7, N = 8, A = [0, 8, 7, 1, 0, 7, 1, 0, 0, 0, 0, 7, 1, 0, 0, 0]\<rparr>"
  shows "RangeSum_int t 2 7 = Some (Inr (8 + e))"
    "RangeSum_int t 0 3 = Some (Inr (7 + e))"
    "RangeSum_int t 4 5 = Some (Inr (1 + 2 * e))"
    "RangeSum_int t 5 5 = Some (Inr (3 * e))"
    "RangeSum_int t 0 7 = Some (Inr 8)"
  unfolding t_def
  by (simp_all add: RangeSum_int_def f_int.simps read_A_int_def
      LeftChild_int_def RightChild_int_def div_int_def glue_def word_sless_alt word_sle_eq
      min_int_def max_int_def signed_divide_int_def Let_def)

text \<open>
  C10. \<open>SegTreeInit\<close> of \<^verbatim>\<open>src/segtree.c\<close> never writes the field \<^verbatim>\<open>identity\<close>: whatever it
  returns holds the value the caller's struct \<open>c\<close> had. A query that takes the identity for a
  half it does not enter returns a value that depends on it: in \<^verbatim>\<open>main\<close> of that file the
  four queries return \<open>8 + e\<close>, \<open>7 + e\<close>, \<open>1 + 2 * e\<close> and \<open>3 * e\<close> for the value \<open>e\<close> of the field,
  and only the query for the whole range \<open>(0, 7)\<close> is free of it. The zero-filled array does
  not make the field 0: from a struct whose field is 1, \<^verbatim>\<open>RangeSum(5,5)\<close> on the fresh tree
  is 3.
\<close>

theorem SegTreeInit_int_never_sets_identity:
  "map_option identity (SegTreeInit_int c sz) =
     map_option (\<lambda>_. identity c) (SegTreeInit_int c sz) \<and>
   (\<exists>s1 s2 s3. SegTreeInit_int c 7 = Some s1 \<and> A s1 = replicate 16 0 \<and>
      identity s1 = identity c \<and>
      Assign_int s1 3 7 = Inr s2 \<and> Assign_int s2 4 1 = Inr s3 \<and>
      RangeSum_int s3 2 7 = Some (Inr (8 + identity c)) \<and>
      RangeSum_int s3 0 3 = Some (Inr (7 + identity c)) \<and>
      RangeSum_int s3 4 5 = Some (Inr (1 + 2 * identity c)) \<and>
      RangeSum_int s3 5 5 = Some (Inr (3 * identity c)) \<and>
      RangeSum_int s3 0 7 = Some (Inr 8)) \<and>
   (\<exists>s. SegTreeInit_int \<lparr>identity = 1, n = 0, N = 0, A = []\<rparr> 7 = Some s \<and>
      set (A s) = {0} \<and> RangeSum_int s 5 5 = Some (Inr 3))"
proof -
  obtain e a b xs where c: "c = \<lparr>identity = e, n = a, N = b, A = xs\<rparr>" by (cases c)
  then have init: "SegTreeInit_int c 7 = Some \<lparr>identity = e, n = 7, N = 8, A = replicate 16 0\<rparr>"
    by (simp add: SegTreeInit_int_7)
  have "\<exists>s1 s2 s3. SegTreeInit_int c 7 = Some s1 \<and> A s1 = replicate 16 0 \<and>
      identity s1 = identity c \<and>
      Assign_int s1 3 7 = Inr s2 \<and> Assign_int s2 4 1 = Inr s3 \<and>
      RangeSum_int s3 2 7 = Some (Inr (8 + identity c)) \<and>
      RangeSum_int s3 0 3 = Some (Inr (7 + identity c)) \<and>
      RangeSum_int s3 4 5 = Some (Inr (1 + 2 * identity c)) \<and>
      RangeSum_int s3 5 5 = Some (Inr (3 * identity c)) \<and>
      RangeSum_int s3 0 7 = Some (Inr 8)"
    using init main_int_assigns [of e] main_int_queries [of e] by (simp add: c)
  moreover have "\<exists>s. SegTreeInit_int \<lparr>identity = 1, n = 0, N = 0, A = []\<rparr> 7 = Some s \<and>
      set (A s) = {0} \<and> RangeSum_int s 5 5 = Some (Inr 3)"
    by (simp add: SegTreeInit_int_7 replicate_16 RangeSum_int_def f_int.simps read_A_int_def
        LeftChild_int_def RightChild_int_def div_int_def glue_def word_sless_alt word_sle_eq
        min_int_def max_int_def signed_divide_int_def Let_def)
  ultimately show ?thesis using SegTreeInit_int_identity [of c sz] by blast
qed

section \<open>Termination\<close>

text \<open>
  The index arithmetic of \<^verbatim>\<open>f\<close> over \<^verbatim>\<open>int\<close> read in the integers: below \<open>2 ^ 29\<close> no sum,
  double or successor overflows.
\<close>

lemma sint_add_small:
  "- (2 ^ 31) \<le> sint x + sint y \<Longrightarrow> sint x + sint y < 2 ^ 31 \<Longrightarrow>
     sint (x + y :: c_int) = sint x + sint y"
  by (simp add: sint_word_ariths signed_take_bit_int_eq_self)

lemma sint_double:
  "- (2 ^ 30) \<le> sint v \<Longrightarrow> sint v < 2 ^ 30 \<Longrightarrow> sint (2 * v :: c_int) = 2 * sint v"
proof -
  assume "- (2 ^ 30) \<le> sint v" "sint v < 2 ^ 30"
  then have "sint (v + v) = sint v + sint v" by (intro sint_add_small) simp_all
  moreover have "v + v = 2 * v" by simp
  ultimately show ?thesis by simp
qed

lemma sint_Suc_int: "sint (w::c_int) < 2 ^ 30 \<Longrightarrow> 0 \<le> sint w \<Longrightarrow> sint (w + 1) = sint w + 1"
  using sint_add_small [of w 1] by simp

lemma sint_min_int: "sint (min_int a b) = min (sint a) (sint b)"
  by (simp add: min_int_def word_sless_alt)

lemma sint_max_int: "sint (max_int a b) = max (sint a) (sint b)"
  by (simp add: max_int_def word_sless_alt)

lemma sint_half: "0 \<le> sint a \<Longrightarrow> sint (div_int a 2) = sint a div 2"
proof -
  assume a: "0 \<le> sint a"
  have half: "sint a sdiv 2 = sint a div 2"
    using a by (simp add: signed_divide_int_def sgn_if)
  have "sint a < 2 ^ 31" using sint_lt [of a] by simp
  then have "- (2 ^ 31) \<le> sint a div 2" and "sint a div 2 < 2 ^ 31" using a by simp_all
  then have "sint (word_of_int (sint a div 2) :: c_int) = sint a div 2" by (rule sint_small)
  with half show ?thesis by (simp add: div_int_def)
qed

lemma split_facts_int:
  assumes v: "sint (v::c_int) * 2 ^ Suc h = c + sint (l::c_int)"
    and r: "sint (r::c_int) + 1 = sint l + 2 ^ Suc h"
    and l0: "0 \<le> sint l" and rc: "sint r < c" and c: "c \<le> 2 ^ 29"
  shows "sint (div_int (l + r) 2) + 1 = sint l + 2 ^ h"
    and "sint (div_int (l + r) 2 + 1) = sint l + 2 ^ h"
    and "sint (LeftChild_int v) * 2 ^ h = c + sint l"
    and "sint (RightChild_int v) * 2 ^ h = c + (sint l + 2 ^ h)"
    and "sint (div_int (l + r) 2) < sint r"
    and "sint l \<le> sint (div_int (l + r) 2)"
proof -
  define q :: int where "q = 2 ^ h"
  have q: "1 \<le> q" "(2::int) ^ Suc h = 2 * q" by (simp_all add: q_def)
  from r l0 q have r0: "0 \<le> sint r" by linarith
  from r rc c q l0 have lr: "sint l < 2 ^ 29" "sint r < 2 ^ 29" by linarith+
  have vpos: "0 < sint v"
  proof (rule ccontr)
    assume "\<not> 0 < sint v"
    then have "sint v * (2 * q) \<le> 0" using q(1) by (intro mult_nonpos_nonneg) simp_all
    moreover from v have "sint v * (2 * q) = c + sint l" by (simp only: q(2))
    ultimately show False using l0 rc r0 by linarith
  qed
  then have "sint v * 2 \<le> sint v * (2 * q)" using q(1) by (intro mult_left_mono) simp_all
  moreover from v have "sint v * (2 * q) = c + sint l" by (simp only: q(2))
  moreover from r have "sint r + 1 = sint l + 2 * q" by (simp only: q(2))
  ultimately have vc: "sint v < c" using rc q(1) by linarith
  with c have v29: "sint v < 2 ^ 29" by simp
  have "sint (l + r) = sint l + sint r" using lr l0 r0 by (intro sint_add_small) simp_all
  moreover from this l0 r0 have "0 \<le> sint (l + r)" by simp
  ultimately have m: "sint (div_int (l + r) 2) = (sint l + sint r) div 2" by (simp add: sint_half)
  from r have r': "sint r + 1 = sint l + 2 * q" by (simp only: q(2))
  then have "sint l + sint r = 2 * (sint l + q - 1) + 1" by simp
  then have "(sint l + sint r) div 2 = sint l + q - 1" by simp
  with m q show m1: "sint (div_int (l + r) 2) + 1 = sint l + 2 ^ h" by (simp add: q_def)
  from m1 r' q(1) show mr: "sint (div_int (l + r) 2) < sint r" unfolding q_def by linarith
  from m1 q show m0: "sint l \<le> sint (div_int (l + r) 2)" unfolding q_def by linarith
  from mr rc c have "sint (div_int (l + r) 2) < 2 ^ 30" by simp
  moreover from m0 l0 have "0 \<le> sint (div_int (l + r) 2)" by simp
  ultimately show "sint (div_int (l + r) 2 + 1) = sint l + 2 ^ h" using m1 by (simp add: sint_Suc_int)
  have d: "sint (2 * v) = 2 * sint v" using v29 vpos by (intro sint_double) simp_all
  with v show "sint (LeftChild_int v) * 2 ^ h = c + sint l"
    by (simp add: LeftChild_int_def algebra_simps)
  from d v29 vpos have "sint (2 * v + 1) = 2 * sint v + 1" by (simp add: sint_Suc_int)
  with v show "sint (RightChild_int v) * 2 ^ h = c + (sint l + 2 ^ h)"
    by (simp add: RightChild_int_def algebra_simps)
qed

lemma f_int_exact: "f_int s v l r l r = Some (read_A_int (A s) v)"
  by (subst f_int.simps) simp

lemma f_int_split:
  "\<not> (l = i \<and> r = j) \<Longrightarrow> f_int s v l r i j =
     (let m = div_int (l + r) 2 in
        do { t1 \<leftarrow> (if word_sle i m then f_int s (LeftChild_int v) l m i (min_int m j)
                    else Some (Inr (identity s)));
             (case t1 of
                Inl e \<Rightarrow> Some (Inl e)
              | Inr a \<Rightarrow>
                 do { t2 \<leftarrow> (if word_sless m j
                             then f_int s (RightChild_int v) (m + 1) r (max_int i (m + 1)) j
                             else Some (Inr (identity s)));
                      (case t2 of
                         Inl e \<Rightarrow> Some (Inl e)
                       | Inr b \<Rightarrow> Some (Inr (glue a b))) }) })"
proof -
  assume a: "\<not> (l = i \<and> r = j)"
  show ?thesis by (subst f_int.simps) (simp only: a if_False)
qed

lemma read_A_int_in:
  "0 \<le> sint v \<Longrightarrow> nat (sint v) < length xs \<Longrightarrow> read_A_int xs v = Inr (xs ! nat (sint v))"
  by (simp add: read_A_int_def)

lemma f_int_returns:
  assumes len: "length (A s) = nat (2 * c)" and c: "c \<le> 2 ^ 29"
  shows "sint v * 2 ^ h = c + sint l \<Longrightarrow> sint r + 1 = sint l + 2 ^ h \<Longrightarrow> 0 \<le> sint l \<Longrightarrow>
    sint r < c \<Longrightarrow>
    sint l \<le> sint i \<Longrightarrow> sint i \<le> sint r \<Longrightarrow> sint l \<le> sint j \<Longrightarrow> sint j \<le> sint r \<Longrightarrow>
    \<exists>y. f_int s v l r i j = Some (Inr y)"
proof (induction h arbitrary: v l r i j)
  case 0
  then have "sint l = sint i" "sint r = sint j" by simp_all
  then have "l = i" "r = j" by (simp_all add: signed_word_eqI)
  moreover from 0 have "0 \<le> sint v" "nat (sint v) < length (A s)" using len by simp_all
  ultimately show ?case by (simp add: f_int_exact read_A_int_in)
next
  case (Suc h)
  show ?case
  proof (cases "l = i \<and> r = j")
    case True
    define q :: int where "q = 2 ^ h"
    have q: "1 \<le> q" "(2::int) ^ Suc h = 2 * q" by (simp_all add: q_def)
    from Suc.prems(2,3) q have r0: "0 \<le> sint r" by linarith
    have vpos: "0 < sint v"
    proof (rule ccontr)
      assume "\<not> 0 < sint v"
      then have "sint v * (2 * q) \<le> 0" using q(1) by (intro mult_nonpos_nonneg) simp_all
      moreover from Suc.prems(1) have "sint v * (2 * q) = c + sint l" by (simp only: q(2))
      ultimately show False using Suc.prems(3,4) r0 by linarith
    qed
    then have "sint v * 2 \<le> sint v * (2 * q)" using q(1) by (intro mult_left_mono) simp_all
    moreover from Suc.prems(1) have "sint v * (2 * q) = c + sint l" by (simp only: q(2))
    moreover from Suc.prems(2) have "sint r + 1 = sint l + 2 * q" by (simp only: q(2))
    ultimately have "sint v < c" using Suc.prems(4) q(1) by linarith
    with vpos have "0 \<le> sint v" "nat (sint v) < length (A s)" using len by simp_all
    with True show ?thesis by (simp add: f_int_exact read_A_int_in)
  next
    case False
    define m where "m = div_int (l + r) 2"
    note sf = split_facts_int [OF Suc.prems(1,2,3,4) c, folded m_def]
    have mr: "sint m < sint r" by (rule sf(5))
    from sf(6) Suc.prems(3) have m0: "0 \<le> sint m" by simp
    have left: "\<exists>y. f_int s (LeftChild_int v) l m i (min_int m j) = Some (Inr y)"
      if "word_sle i m"
    proof (rule Suc.IH)
      show "sint (LeftChild_int v) * 2 ^ h = c + sint l" by (rule sf(3))
      show "sint m + 1 = sint l + 2 ^ h" by (rule sf(1))
      show "0 \<le> sint l" by (rule Suc.prems(3))
      show "sint m < c" using mr Suc.prems(4) by simp
      show "sint l \<le> sint i" by (rule Suc.prems(5))
      show "sint i \<le> sint m" using that by (simp add: word_sle_eq)
      show "sint l \<le> sint (min_int m j)" using Suc.prems(7) sf(6) by (simp add: sint_min_int)
      show "sint (min_int m j) \<le> sint m" by (simp add: sint_min_int)
    qed
    have right: "\<exists>y. f_int s (RightChild_int v) (m + 1) r (max_int i (m + 1)) j = Some (Inr y)"
      if "word_sless m j"
    proof (rule Suc.IH)
      show "sint (RightChild_int v) * 2 ^ h = c + sint (m + 1)" using sf(2,4) by simp
      show "sint r + 1 = sint (m + 1) + 2 ^ h" using sf(2) Suc.prems(2) by simp
      show "0 \<le> sint (m + 1)" using sf(1,2) m0 by simp
      show "sint r < c" by (rule Suc.prems(4))
      show "sint (m + 1) \<le> sint (max_int i (m + 1))" by (simp add: sint_max_int)
      show "sint (max_int i (m + 1)) \<le> sint r"
        using Suc.prems(6) sf(1,2) mr by (simp add: sint_max_int)
      show "sint (m + 1) \<le> sint j" using that sf(1,2) by (simp add: word_sless_alt)
      show "sint j \<le> sint r" by (rule Suc.prems(8))
    qed
    obtain t1 where t1: "(if word_sle i m then f_int s (LeftChild_int v) l m i (min_int m j)
                    else Some (Inr (identity s))) = Some (Inr t1)"
      using left by (cases "word_sle i m") auto
    obtain t2 where t2: "(if word_sless m j
                          then f_int s (RightChild_int v) (m + 1) r (max_int i (m + 1)) j
                          else Some (Inr (identity s))) = Some (Inr t2)"
      using right by (cases "word_sless m j") auto
    have "f_int s v l r i j = Some (Inr (glue t1 t2))"
      using False t1 t2 by (simp add: f_int_split m_def [symmetric] Let_def)
    then show ?thesis by blast
  qed
qed

lemma shape_int_sint:
  assumes "shape_int t"
  shows "\<exists>k \<le> 29. sint (N t) = 2 ^ k" "sint (N t) \<le> 2 ^ 29"
    "length (A t) = nat (2 * sint (N t))"
proof -
  from assms obtain k where "k < 31" and k2: "N t = 2 ^ k" by (auto simp: shape_int_def is_pow2_int_def)
  then have k: "k \<le> 30" by simp
  from assms have "word_sle (N t) (2 ^ 29)" by (simp add: shape_int_def)
  then show le: "sint (N t) \<le> 2 ^ 29" using sint_pow2 [of 29] by (simp add: word_sle_eq)
  from k k2 have u: "sint (N t) = 2 ^ k" by (simp add: sint_pow2)
  with le have "(2::int) ^ k \<le> 2 ^ 29" by simp
  then have "k \<le> 29" using power_le_imp_le_exp [of 2 k 29] by simp
  with u show "\<exists>k \<le> 29. sint (N t) = 2 ^ k" by blast
  from assms u show "length (A t) = nat (2 * sint (N t))" by (simp add: shape_int_def)
qed

lemma RangeSum_int_returns:
  assumes sh: "shape_int t" and i: "word_sle 0 i" "word_sless i (N t)"
    and j: "word_sle 0 j" "word_sless j (N t)"
  shows "\<exists>y. RangeSum_int t i j = Some (Inr y)"
proof -
  note su = shape_int_sint [OF sh]
  from su(1) obtain k where k: "k \<le> 29" "sint (N t) = 2 ^ k" by blast
  then have pos: "0 < sint (N t)" by simp
  have "sint (N t) - 1 = sint (N t) + sint (- 1 :: c_int)" by simp
  have r: "sint (N t - 1) = sint (N t) - 1"
    using sint_add_small [of "N t" "- 1"] pos su(2) by simp
  have "\<exists>y. f_int t 1 0 (N t - 1) i j = Some (Inr y)"
  proof (rule f_int_returns [OF su(3,2), where h = k])
    show "sint (1::c_int) * 2 ^ k = sint (N t) + sint (0::c_int)" using k by simp
    show "sint (N t - 1) + 1 = sint (0::c_int) + 2 ^ k" using r k by simp
    show "0 \<le> sint (0::c_int)" by simp
    show "sint (N t - 1) < sint (N t)" using r by simp
    show "sint (0::c_int) \<le> sint i" "sint (0::c_int) \<le> sint j"
      using i(1) j(1) by (simp_all add: word_sle_eq)
    show "sint i \<le> sint (N t - 1)" using i(2) r by (simp add: word_sless_alt)
    show "sint j \<le> sint (N t - 1)" using j(2) r by (simp add: word_sless_alt)
  qed
  then show ?thesis by (simp add: RangeSum_int_def)
qed

lemma sdiv_2_bounds:
  fixes x :: int
  shows "0 \<le> x \<Longrightarrow> x sdiv 2 = x div 2" and "x < 0 \<Longrightarrow> x sdiv 2 = - (- x div 2)"
  by (simp_all add: signed_divide_int_def sgn_if)

lemma sint_Parent_int: "sint (Parent_int w) = sint w sdiv 2"
proof -
  have b: "- (2 ^ 31) \<le> sint w" "sint w < 2 ^ 31" by (rule sint_range)+
  have "- (2 ^ 31) \<le> sint w sdiv 2 \<and> sint w sdiv 2 < 2 ^ 31"
  proof (cases "0 \<le> sint w")
    case True
    then have "sint w sdiv 2 = sint w div 2" by (rule sdiv_2_bounds)
    moreover from True have "0 \<le> sint w div 2" "sint w div 2 \<le> sint w" by simp_all
    ultimately show ?thesis using b by linarith
  next
    case False
    then have "sint w sdiv 2 = - (- sint w div 2)" by (intro sdiv_2_bounds) simp
    moreover from False have "0 \<le> - sint w div 2" "- sint w div 2 \<le> - sint w" by simp_all
    ultimately show ?thesis using b by linarith
  qed
  then have "- (2 ^ 31) \<le> sint w sdiv 2" "sint w sdiv 2 < 2 ^ 31" by simp_all
  then have "sint (word_of_int (sint w sdiv 2) :: c_int) = sint w sdiv 2" by (rule sint_small)
  then show ?thesis by (simp add: Parent_int_def div_int_def)
qed

lemma Parent_int_below:
  "sint w < 2 ^ k \<Longrightarrow> \<not> word_sless 0 ((Parent_int ^^ k) w)"
proof (induction k arbitrary: w)
  case 0
  then show ?case by (simp add: word_sless_alt)
next
  case (Suc k)
  have "sint (Parent_int w) < 2 ^ k"
  proof (cases "0 \<le> sint w")
    case True
    then have "sint w sdiv 2 = sint w div 2" by (rule sdiv_2_bounds)
    moreover from Suc.prems have "sint w div 2 < 2 ^ k" by simp
    ultimately show ?thesis by (simp only: sint_Parent_int)
  next
    case False
    then have "sint w sdiv 2 = - (- sint w div 2)" by (intro sdiv_2_bounds) simp
    moreover from False have "0 \<le> - sint w div 2" by simp
    moreover have "(0::int) < 2 ^ k" by simp
    ultimately have "sint w sdiv 2 < 2 ^ k" by linarith
    then show ?thesis by (simp only: sint_Parent_int)
  qed
  from Suc.IH [OF this] show ?case by (simp add: funpow_swap1)
qed

lemma Parent_int_reaches_0: "\<not> word_sless 0 ((Parent_int ^^ 31) w)"
  using sint_range(2) [of w] by (intro Parent_int_below) simp

lemma f_int_below_zero:
  assumes "f_int s v l r i j = Some y"
  shows "\<not> (l = 0 \<and> 0 \<le> sint r \<and> i = - 1 \<and> j = - 1)"
  using assms
proof (rule f_int.raw_induct [rotated 1])
  fix ff s v l r i j y
  assume IH: "\<And>s v l r i j y. ff s v l r i j = Some y \<Longrightarrow>
      \<not> (l = 0 \<and> 0 \<le> sint r \<and> i = - 1 \<and> j = - 1)"
    and eq: "(if l = i \<and> r = j then Some (read_A_int (A s) v)
      else
        let m = div_int (l + r) 2 in
        do { t1 \<leftarrow> (if word_sle i m then ff s (LeftChild_int v) l m i (min_int m j)
                    else Some (Inr (identity s)));
             (case t1 of
                Inl e \<Rightarrow> Some (Inl e)
              | Inr a \<Rightarrow>
                 do { t2 \<leftarrow> (if word_sless m j
                             then ff s (RightChild_int v) (m + 1) r (max_int i (m + 1)) j
                             else Some (Inr (identity s)));
                      (case t2 of
                         Inl e \<Rightarrow> Some (Inl e)
                       | Inr b \<Rightarrow> Some (Inr (glue a b))) }) }) = Some (y :: fault + c_int)"
  show "\<not> (l = 0 \<and> 0 \<le> sint r \<and> i = - 1 \<and> j = - 1)"
  proof
    assume a: "l = 0 \<and> 0 \<le> sint r \<and> i = - 1 \<and> j = - 1"
    define m where "m = div_int (l + r) 2"
    from a have m0: "sint m = sint r div 2" "0 \<le> sint m" by (simp_all add: m_def sint_half)
    have i1: "sint i = - 1" "sint j = - 1" using a by simp_all
    with m0(2) have "sint i \<le> sint m" by linarith
    then have le: "word_sle i m" by (simp only: word_sle_eq)
    from i1(2) m0(2) have "min (sint m) (sint j) = - 1" by linarith
    then have "sint (min_int m j) = sint (- 1 :: c_int)" by (simp add: sint_min_int)
    then have mj: "min_int m j = - 1" by (rule signed_word_eqI)
    from a have ne: "\<not> (l = i \<and> r = j)" by auto
    from eq obtain t1 where "ff s (LeftChild_int v) l m i (min_int m j) = Some t1"
      unfolding m_def [symmetric] using ne le
      by (cases "ff s (LeftChild_int v) l m i (min_int m j)") (simp_all add: Let_def)
    from IH [OF this] a m0(2) mj show False by simp
  qed
qed

lemma RangeSum_int_below_zero:
  assumes "0 < sint (N t)"
  shows "RangeSum_int t (- 1) (- 1) = None"
proof (cases "RangeSum_int t (- 1) (- 1)")
  case (Some y)
  have "sint (N t - 1) = sint (N t) - 1"
    using sint_add_small [of "N t" "- 1"] assms sint_range(2) [of "N t"] by simp
  with assms have "0 \<le> sint (N t - 1)" by simp
  with f_int_below_zero [of t 1 0 "N t - 1" "- 1" "- 1" y] Some show ?thesis
    by (simp add: RangeSum_int_def)
qed simp

lemma RangeSum_returns:
  assumes sh: "shape s" and i: "i < N s" and j: "j < N s"
  shows "\<exists>y. RangeSum g s i j = Some (Inr y)"
proof -
  note su = shape_unat [OF sh]
  from su(1) obtain k where k: "unat (N s) = 2 ^ k" by blast
  then have "unat (N s) \<noteq> 0" by simp
  then have "N s \<noteq> 0" by (simp add: unat_eq_zero)
  then have r: "unat (N s - 1) = unat (N s) - 1" by (rule unat_minus_one)
  have "\<exists>y. f g s 1 0 (N s - 1) i j = Some (Inr y)"
  proof (rule f_returns [OF su(3,2), where h = k])
    show "unat (1::size_t) * 2 ^ k = unat (N s) + unat (0::size_t)" using k by simp
    show "unat (N s - 1) + 1 = unat (0::size_t) + 2 ^ k" using r k by simp
    show "unat (N s - 1) < unat (N s)" using r k by simp
    show "unat (0::size_t) \<le> unat i" "unat (0::size_t) \<le> unat j" by simp_all
    show "unat i \<le> unat (N s - 1)" using i r by (simp add: word_less_nat_alt)
    show "unat j \<le> unat (N s - 1)" using j r by (simp add: word_less_nat_alt)
  qed
  then show ?thesis by (simp add: RangeSum_def)
qed

lemma main_tree_int_built:
  "Segtree_int 7 = Some \<lparr>identity = 0, n = 7, N = 8, A = replicate 16 0\<rparr>"
  "Assign_int \<lparr>identity = 0, n = 7, N = 8, A = replicate 16 0\<rparr> 3 7 =
     Inr \<lparr>identity = 0, n = 7, N = 8, A = [0, 7, 7, 0, 0, 7, 0, 0, 0, 0, 0, 7, 0, 0, 0, 0]\<rparr>"
  "Assign_int \<lparr>identity = 0, n = 7, N = 8, A = [0, 7, 7, 0, 0, 7, 0, 0, 0, 0, 0, 7, 0, 0, 0, 0]\<rparr> 4 1 =
     Inr main_tree_int"
  "shape_int main_tree_int"
proof -
  show "Segtree_int 7 = Some \<lparr>identity = 0, n = 7, N = 8, A = replicate 16 0\<rparr>" by code_simp
  show "Assign_int \<lparr>identity = 0, n = 7, N = 8, A = replicate 16 0\<rparr> 3 7 =
     Inr \<lparr>identity = 0, n = 7, N = 8, A = [0, 7, 7, 0, 0, 7, 0, 0, 0, 0, 0, 7, 0, 0, 0, 0]\<rparr>"
    by (rule main_int_assigns(1))
  show "Assign_int \<lparr>identity = 0, n = 7, N = 8, A = [0, 7, 7, 0, 0, 7, 0, 0, 0, 0, 0, 7, 0, 0, 0, 0]\<rparr> 4 1 =
     Inr main_tree_int"
    unfolding main_tree_int_def by (rule main_int_assigns(2))
  have "is_pow2_int 8" unfolding is_pow2_int_def by (intro bexI [of _ 3]) simp_all
  then show "shape_int main_tree_int"
    by (simp add: shape_int_def main_tree_int_def word_sle_eq)
qed

text \<open>
  C8, as the code has it. In the \<^verbatim>\<open>size_t\<close> variants, for every pair of indices below the
  capacity, in either order, the recursion of the query returns; and the ancestor walk of
  \<open>Assign\<close> ends from every index: 64 steps of \<open>Parent\<close> lead to 0, where the loop stops. In
  the \<^verbatim>\<open>int\<close> variants, for every pair of indices from 0 to below the capacity, in either
  order, the recursion of the query returns; and the ancestor walk ends from every index:
  after 31 steps of \<open>Parent_int\<close> the index is not positive, and the loop stops no later.
\<close>

theorem terminates_inside_capacity:
  "(shape s \<and> i < N s \<and> j < N s \<longrightarrow> (\<exists>y. RangeSum g s i j = Some (Inr y))) \<and>
   (\<forall>w. (Parent ^^ 64) w = 0) \<and>
   (shape_int t \<and> word_sle 0 p \<and> word_sless p (N t) \<and> word_sle 0 q \<and> word_sless q (N t) \<longrightarrow>
      (\<exists>y. RangeSum_int t p q = Some (Inr y))) \<and>
   (\<forall>w. \<not> word_sless 0 ((Parent_int ^^ 31) w))"
  using RangeSum_returns [of s i j g] RangeSum_int_returns [of t p q]
  by (simp add: Parent_reaches_0 Parent_int_reaches_0)

theorem terminates_inside_capacity_witness:
  "shape main_tree \<and> 5 < N main_tree \<and> 2 < N main_tree \<and>
   shape_int main_tree_int \<and> word_sle 0 (5::c_int) \<and> word_sless 5 (N main_tree_int) \<and>
   word_sle 0 (2::c_int) \<and> word_sless 2 (N main_tree_int) \<and>
   (\<exists>y. RangeSum glue main_tree 5 2 = Some (Inr y)) \<and> (\<forall>w. (Parent ^^ 64) w = 0) \<and>
   (\<exists>y. RangeSum_int main_tree_int 5 2 = Some (Inr y)) \<and>
   (\<forall>w. \<not> word_sless 0 ((Parent_int ^^ 31) w))"
proof -
  have b: "5 < N main_tree" "2 < N main_tree" by (simp_all add: main_tree_def)
  have c: "word_sle 0 (5::c_int)" "word_sless 5 (N main_tree_int)"
    "word_sle 0 (2::c_int)" "word_sless 2 (N main_tree_int)"
    by (simp_all add: main_tree_int_def word_sle_eq word_sless_alt)
  from terminates_inside_capacity [of main_tree 5 2 glue main_tree_int 5 2]
    main_shape(1) b main_tree_int_built(4) c
  show ?thesis by simp
qed

text \<open>
  C8, as the spec states it, for every pair: on the tree of the demonstration of
  \<^verbatim>\<open>src/c/segtree.c\<close>, of capacity 8, the query for \<open>(8, 8)\<close> never returns; and on the tree
  of the demonstration of \<^verbatim>\<open>src/segtree.cpp\<close> the query for \<open>(-1, -1)\<close> never returns.
\<close>

theorem RangeSum_8_8_never_returns:
  "SegTreeInit \<lparr>identity = 1, n = 0, N = 0, A = []\<rparr> 7 = Some (Inr main_init) \<and>
   Assign_all glue main_init [(3, 7), (4, 1)] = Inr main_tree \<and>
   N main_tree = 8 \<and> RangeSum glue main_tree 8 8 = None \<and>
   Segtree_int 7 = Some \<lparr>identity = 0, n = 7, N = 8, A = replicate 16 0\<rparr> \<and>
   Assign_int \<lparr>identity = 0, n = 7, N = 8, A = replicate 16 0\<rparr> 3 7 =
     Inr \<lparr>identity = 0, n = 7, N = 8, A = [0, 7, 7, 0, 0, 7, 0, 0, 0, 0, 0, 7, 0, 0, 0, 0]\<rparr> \<and>
   Assign_int \<lparr>identity = 0, n = 7, N = 8, A = [0, 7, 7, 0, 0, 7, 0, 0, 0, 0, 0, 7, 0, 0, 0, 0]\<rparr> 4 1 =
     Inr main_tree_int \<and>
   RangeSum_int main_tree_int (- 1) (- 1) = None"
proof -
  have "N main_tree = 8" by (simp add: main_tree_def)
  moreover have "RangeSum glue main_tree (N main_tree) (N main_tree) = None"
    by (rule RangeSum_N_N_diverges) (simp_all add: main_tree_def)
  moreover have "RangeSum_int main_tree_int (- 1) (- 1) = None"
    by (rule RangeSum_int_below_zero) (simp add: main_tree_int_def)
  ultimately show ?thesis using main_states(1,3) main_tree_int_built(1,2,3) by simp
qed

end
